theory Spec2Isabelle
  imports Complex_Main
begin

section \<open>The data model of src/server/npcAI.js\<close>

text \<open>
  Grid coordinates are JavaScript numbers that only ever hold integers: they are
  modelled as \<open>int\<close>. \<open>GRID_WIDTH\<close> and \<open>GRID_HEIGHT\<close> are imported from
  \<open>./gameLogic\<close>, which is not part of the sources; every function below takes them
  as its first two parameters \<open>W\<close> and \<open>H\<close>. The embedding is meant for positive
  grid dimensions (with a zero dimension the JavaScript remainder is NaN).

  The four direction strings are a datatype. A player and an NPC are records with the
  fields the code reads and writes. \<open>gameState.players\<close> is an object used only
  through \<open>Object.values\<close>: it is the list of its values in enumeration order.
  \<open>npcs\<close> is a JavaScript \<open>Map\<close> from player ids to NPC objects.

  The only exception the code can raise is the \<open>TypeError\<close> of \<open>isOccupied\<close>
  reading \<open>tail.x\<close> of a living player with an empty snake; it is a value of the
  type \<open>error\<close>, and every function that can reach it returns \<open>error + 'a\<close>.
  \<open>Math.random()\<close> is a tape \<open>rnd :: nat \<Rightarrow> rat\<close> of draws together with the
  index of the next draw, which is threaded through as state.
\<close>

datatype direction = Up | Down | Left | Right

datatype error = TypeError

type_synonym pos = "int \<times> int"

record player =
  pid :: string
  ptype :: string
  isAlive :: bool
  snake :: "pos list"
  direction :: direction
  nextDirection :: direction

record npc =
  npc_id :: string
  npc_name :: string
  npc_type :: string
  difficulty :: string
  targetFood :: "pos option"
  decisionDelay :: int

record gameState =
  wallMode :: bool
  players :: "player list"
  food :: "pos list"

record settings =
  reactionDelayFrames :: int
  errorChance :: rat
  usePathfinding :: bool
  safetyCheck :: bool

section \<open>Difficulty table\<close>

definition createNPC :: "string \<Rightarrow> string \<Rightarrow> string \<Rightarrow> npc" where
  "createNPC playerId name diff =
     \<lparr>npc_id = playerId, npc_name = name, npc_type = ''npc'', difficulty = diff,
      targetFood = None, decisionDelay = 0\<rparr>"

text \<open>
  \<open>settings[difficulty] || settings.medium\<close>: the three tiers, and the middle tier
  for every other string (a string that names a property every JavaScript object
  inherits, such as \<open>constructor\<close>, is outside the model).
\<close>

definition getDifficultySettings :: "string \<Rightarrow> settings" where
  "getDifficultySettings diff =
     (if diff = ''easy'' then
        \<lparr>reactionDelayFrames = 10, errorChance = 1 / 4,
         usePathfinding = False, safetyCheck = False\<rparr>
      else if diff = ''hard'' then
        \<lparr>reactionDelayFrames = 0, errorChance = 0,
         usePathfinding = True, safetyCheck = True\<rparr>
      else
        \<lparr>reactionDelayFrames = 4, errorChance = 1 / 20,
         usePathfinding = True, safetyCheck = False\<rparr>)"

text \<open>Lines 49 to 54 of \<open>decideNPCMove\<close>: the tier used for this decision.\<close>

definition effectiveDifficulty :: "npc \<Rightarrow> player \<Rightarrow> string" where
  "effectiveDifficulty n p =
     (if length (snake p) > 20 \<and> difficulty n = ''easy'' then ''medium''
      else if length (snake p) > 30 \<and> difficulty n = ''medium'' then ''hard''
      else difficulty n)"

section \<open>Coordinates and occupancy\<close>

text \<open>JavaScript's \<open>%\<close> truncates towards zero: the result has the sign of the dividend.\<close>

definition jsRem :: "int \<Rightarrow> int \<Rightarrow> int" where
  "jsRem a b = sgn a * (\<bar>a\<bar> mod \<bar>b\<bar>)"

definition possibleMoves :: "direction list" where
  "possibleMoves = [Up, Down, Left, Right]"

fun moveDelta :: "pos \<Rightarrow> direction \<Rightarrow> pos" where
  "moveDelta (x, y) Up = (x, y - 1)"
| "moveDelta (x, y) Down = (x, y + 1)"
| "moveDelta (x, y) Left = (x - 1, y)"
| "moveDelta (x, y) Right = (x + 1, y)"

definition getNextCoord :: "int \<Rightarrow> int \<Rightarrow> pos \<Rightarrow> direction \<Rightarrow> bool \<Rightarrow> pos" where
  "getNextCoord W H p d wm =
     (let (x, y) = moveDelta p d
      in if wm then (x, y) else (jsRem (x + W) W, jsRem (y + H) H))"

definition outOfBounds :: "int \<Rightarrow> int \<Rightarrow> pos \<Rightarrow> bool" where
  "outOfBounds W H p = (fst p < 0 \<or> fst p \<ge> W \<or> snd p < 0 \<or> snd p \<ge> H)"

text \<open>
  The loop of \<open>isOccupied\<close> over the players: a dead player is skipped; the
  segments before the last are compared first, then the last one is read, which
  raises when the snake is empty.
\<close>

fun occupiedBy :: "player list \<Rightarrow> pos \<Rightarrow> error + bool" where
  "occupiedBy [] p = Inr False"
| "occupiedBy (pl # pls) p =
     (if \<not> isAlive pl then occupiedBy pls p
      else if p \<in> set (butlast (snake pl)) then Inr True
      else if snake pl = [] then Inl TypeError
      else if last (snake pl) = p then Inr True
      else occupiedBy pls p)"

definition isOccupied :: "int \<Rightarrow> int \<Rightarrow> pos \<Rightarrow> gameState \<Rightarrow> string \<Rightarrow> error + bool" where
  "isOccupied W H p gs myId =
     (if wallMode gs \<and> outOfBounds W H p then Inr True
      else occupiedBy (players gs) p)"

definition isMoveImmediatelySafe ::
  "int \<Rightarrow> int \<Rightarrow> pos \<Rightarrow> direction \<Rightarrow> gameState \<Rightarrow> string \<Rightarrow> error + bool" where
  "isMoveImmediatelySafe W H head d gs myId =
     (let nextPos = getNextCoord W H head d (wallMode gs)
      in if wallMode gs \<and> outOfBounds W H nextPos then Inr False
         else (case isOccupied W H nextPos gs myId of
                 Inl e \<Rightarrow> Inl e
               | Inr b \<Rightarrow> Inr (\<not> b)))"

text \<open>\<open>possibleMoves.filter(move => isMoveImmediatelySafe(...))\<close>, left to right.\<close>

fun filterSafe ::
  "int \<Rightarrow> int \<Rightarrow> pos \<Rightarrow> gameState \<Rightarrow> string \<Rightarrow> direction list \<Rightarrow> error + direction list" where
  "filterSafe W H head gs myId [] = Inr []"
| "filterSafe W H head gs myId (m # ms) =
     (case isMoveImmediatelySafe W H head m gs myId of
        Inl e \<Rightarrow> Inl e
      | Inr b \<Rightarrow>
          (case filterSafe W H head gs myId ms of
             Inl e \<Rightarrow> Inl e
           | Inr r \<Rightarrow> Inr (if b then m # r else r)))"

section \<open>Breadth-first search for food\<close>

text \<open>
  A queue entry is \<open>{pos, firstMove, dist}\<close> (\<open>dist\<close> is written \<open>dst\<close> below). The visited set holds the keys
  \<open>"x,y"\<close>, which determine the integer pair: it is a set of positions.
  \<open>bfsInit\<close> is the first loop of \<open>findPathToClosestFood\<close> (it does not look
  at the visited set), \<open>bfsNeighbors\<close> the loop over the moves inside the while
  loop, and \<open>bfsLoop\<close> the while loop.
\<close>

type_synonym qentry = "pos \<times> direction \<times> int"

fun bfsInit ::
  "int \<Rightarrow> int \<Rightarrow> pos \<Rightarrow> gameState \<Rightarrow> string \<Rightarrow> direction list \<Rightarrow>
   qentry list \<times> pos set \<Rightarrow> error + (qentry list \<times> pos set)" where
  "bfsInit W H startPos gs myId [] st = Inr st"
| "bfsInit W H startPos gs myId (m # ms) (queue, visited) =
     (let next = getNextCoord W H startPos m (wallMode gs)
      in case isOccupied W H next gs myId of
           Inl e \<Rightarrow> Inl e
         | Inr occ \<Rightarrow>
             if \<not> occ
             then bfsInit W H startPos gs myId ms (queue @ [(next, m, 1)], insert next visited)
             else bfsInit W H startPos gs myId ms (queue, visited))"

fun bfsNeighbors ::
  "int \<Rightarrow> int \<Rightarrow> gameState \<Rightarrow> string \<Rightarrow> pos \<Rightarrow> direction \<Rightarrow> int \<Rightarrow> direction list \<Rightarrow>
   qentry list \<times> pos set \<Rightarrow> error + (qentry list \<times> pos set)" where
  "bfsNeighbors W H gs myId p firstMove dst [] st = Inr st"
| "bfsNeighbors W H gs myId p firstMove dst (m # ms) (queue, visited) =
     (let next = getNextCoord W H p m (wallMode gs)
      in if next \<in> visited then bfsNeighbors W H gs myId p firstMove dst ms (queue, visited)
         else (case isOccupied W H next gs myId of
                 Inl e \<Rightarrow> Inl e
               | Inr occ \<Rightarrow>
                   if \<not> occ
                   then bfsNeighbors W H gs myId p firstMove dst ms
                          (queue @ [(next, firstMove, dst + 1)], insert next visited)
                   else bfsNeighbors W H gs myId p firstMove dst ms (queue, visited)))"

function bfsLoop ::
  "int \<Rightarrow> int \<Rightarrow> gameState \<Rightarrow> string \<Rightarrow> qentry list \<Rightarrow> pos set \<Rightarrow>
   error + (direction \<times> int) option" where
  "bfsLoop W H gs myId [] visited = Inr None"
| "bfsLoop W H gs myId ((p, firstMove, dst) # queue) visited =
     (if p \<in> set (food gs) then Inr (Some (firstMove, dst))
      else if dst > 50 then bfsLoop W H gs myId queue visited
      else (case bfsNeighbors W H gs myId p firstMove dst possibleMoves (queue, visited) of
              Inl e \<Rightarrow> Inl e
            | Inr (queue', visited') \<Rightarrow> bfsLoop W H gs myId queue' visited'))"
  by pat_completeness auto
termination
proof (relation "measure (\<lambda>(W, H, gs, myId, queue, visited).
         sum_list (map (\<lambda>(p, f, d). (5::nat) ^ nat (51 - d)) queue))", goal_cases)
  case 1
  show ?case by simp
next
  case (2 W H gs myId p firstMove dst queue visited)
  show ?case by simp
next
  case (3 W H gs myId p firstMove dst queue visited x2 queue' visited')
  have grow: "\<And>q v q' v'. bfsNeighbors W H gs myId p firstMove dst ms (q, v) = Inr (q', v') \<Longrightarrow>
      sum_list (map (\<lambda>(p, f, d). (5::nat) ^ nat (51 - d)) q')
        \<le> sum_list (map (\<lambda>(p, f, d). (5::nat) ^ nat (51 - d)) q)
            + length ms * 5 ^ nat (51 - (dst + 1))" for ms
  proof (induction ms)
    case Nil
    then show ?case by simp
  next
    case (Cons m ms)
    show ?case
      using Cons.prems Cons.IH
      by (fastforce simp: Let_def split: if_splits sum.splits)
  qed
  define X :: nat where "X = 5 ^ nat (51 - (dst + 1))"
  have "nat (51 - dst) = Suc (nat (51 - (dst + 1)))"
    using 3(2) by simp
  then have big: "(5::nat) ^ nat (51 - dst) = 5 * X"
    by (simp add: X_def)
  have le: "sum_list (map (\<lambda>(p, f, d). (5::nat) ^ nat (51 - d)) queue')
        \<le> sum_list (map (\<lambda>(p, f, d). (5::nat) ^ nat (51 - d)) queue) + 4 * X"
    using grow [of possibleMoves queue visited queue' visited'] 3(3,4)
    by (simp add: possibleMoves_def X_def)
  have pos: "0 < X"
    by (simp add: X_def)
  have "sum_list (map (\<lambda>(p, f, d). (5::nat) ^ nat (51 - d)) queue')
        < 5 * X + sum_list (map (\<lambda>(p, f, d). (5::nat) ^ nat (51 - d)) queue)"
    using le pos by linarith
  then show ?case
    by (simp add: big)
qed

definition findPathToClosestFood ::
  "int \<Rightarrow> int \<Rightarrow> pos \<Rightarrow> gameState \<Rightarrow> string \<Rightarrow> error + (direction \<times> int) option" where
  "findPathToClosestFood W H startPos gs myId =
     (case bfsInit W H startPos gs myId possibleMoves ([], {}) of
        Inl e \<Rightarrow> Inl e
      | Inr (queue, visited) \<Rightarrow> bfsLoop W H gs myId queue visited)"

section \<open>Flood fill\<close>

text \<open>
  The stack is a list whose head is the top: \<open>pop\<close> takes the head and \<open>push\<close>
  conses. \<open>fillNeighbors\<close> is the loop over the moves, \<open>fillLoop\<close> the while loop
  with the counter.
\<close>

fun fillNeighbors ::
  "int \<Rightarrow> int \<Rightarrow> gameState \<Rightarrow> string \<Rightarrow> pos \<Rightarrow> direction list \<Rightarrow>
   pos list \<times> pos set \<Rightarrow> error + (pos list \<times> pos set)" where
  "fillNeighbors W H gs myId current [] st = Inr st"
| "fillNeighbors W H gs myId current (m # ms) (stack, visited) =
     (let next = getNextCoord W H current m (wallMode gs)
      in if next \<in> visited then fillNeighbors W H gs myId current ms (stack, visited)
         else (case isOccupied W H next gs myId of
                 Inl e \<Rightarrow> Inl e
               | Inr occ \<Rightarrow>
                   if \<not> occ
                   then fillNeighbors W H gs myId current ms (next # stack, insert next visited)
                   else fillNeighbors W H gs myId current ms (stack, visited)))"

function fillLoop ::
  "int \<Rightarrow> int \<Rightarrow> gameState \<Rightarrow> string \<Rightarrow> int \<Rightarrow> direction list \<Rightarrow>
   pos list \<Rightarrow> pos set \<Rightarrow> int \<Rightarrow> error + int" where
  "fillLoop W H gs myId limit moves [] visited count = Inr count"
| "fillLoop W H gs myId limit moves (current # stack) visited count =
     (if count + 1 \<ge> limit then Inr limit
      else (case fillNeighbors W H gs myId current moves (stack, visited) of
              Inl e \<Rightarrow> Inl e
            | Inr (stack', visited') \<Rightarrow>
                fillLoop W H gs myId limit moves stack' visited' (count + 1)))"
  by pat_completeness auto
termination
  by (relation "measure (\<lambda>(W, H, gs, myId, limit, moves, stack, visited, count).
         nat (limit - count))") auto

definition countAccessibleTiles ::
  "int \<Rightarrow> int \<Rightarrow> pos \<Rightarrow> gameState \<Rightarrow> string \<Rightarrow> int \<Rightarrow> error + int" where
  "countAccessibleTiles W H startPos gs myId limit =
     fillLoop W H gs myId limit possibleMoves [startPos] {startPos} 0"

section \<open>The decision policy\<close>

text \<open>
  An array read outside the range gives \<open>undefined\<close>, which the caller treats as
  no direction: \<open>None\<close>.
\<close>

definition pickAt :: "'a list \<Rightarrow> int \<Rightarrow> 'a option" where
  "pickAt xs i = (if 0 \<le> i \<and> i < int (length xs) then Some (xs ! nat i) else None)"

text \<open>
  The distance of the tail-chasing loop and of the hot/cold loop:
  \<open>dx + dy\<close>, each replaced by \<open>Math.min(dx, GRID - dx)\<close> when the grid wraps.
\<close>

definition wrappedDist :: "int \<Rightarrow> int \<Rightarrow> bool \<Rightarrow> pos \<Rightarrow> pos \<Rightarrow> int" where
  "wrappedDist W H wm target nextPos =
     (let dx = \<bar>fst target - fst nextPos\<bar>; dy = \<bar>snd target - snd nextPos\<bar>
      in if \<not> wm then min dx (W - dx) + min dy (H - dy) else dx + dy)"

text \<open>
  The loop of survival mode that maximises the reachable space, with the state
  \<open>(bestSurvivalMove, maxSpace)\<close>.
\<close>

fun survivalScan ::
  "int \<Rightarrow> int \<Rightarrow> pos \<Rightarrow> gameState \<Rightarrow> string \<Rightarrow> direction list \<Rightarrow>
   direction option \<times> int \<Rightarrow> error + (direction option \<times> int)" where
  "survivalScan W H head gs myId [] st = Inr st"
| "survivalScan W H head gs myId (move # ms) (best, maxSpace) =
     (let nextPos = getNextCoord W H head move (wallMode gs)
      in case countAccessibleTiles W H nextPos gs myId 100 of
           Inl e \<Rightarrow> Inl e
         | Inr space \<Rightarrow>
             if space > maxSpace
             then survivalScan W H head gs myId ms (Some move, space)
             else survivalScan W H head gs myId ms (best, maxSpace))"

text \<open>
  The loop that picks the safe move whose next cell is nearest to a target, with the
  state \<open>(bestMove, shortestDist)\<close>; the distance \<open>None\<close> is \<open>Infinity\<close>. The tail
  chase and the hot/cold steering run the same loop body on different targets.
\<close>

fun closestScan ::
  "int \<Rightarrow> int \<Rightarrow> pos \<Rightarrow> gameState \<Rightarrow> pos \<Rightarrow> direction list \<Rightarrow>
   direction option \<times> int option \<Rightarrow> direction option \<times> int option" where
  "closestScan W H head gs target [] st = st"
| "closestScan W H head gs target (move # ms) (best, minDist) =
     (let nextPos = getNextCoord W H head move (wallMode gs);
          d = wrappedDist W H (wallMode gs) target nextPos
      in if (case minDist of None \<Rightarrow> True | Some m \<Rightarrow> d < m)
         then closestScan W H head gs target ms (Some move, Some d)
         else closestScan W H head gs target ms (best, minDist))"

text \<open>\<open>gameState.food.forEach\<close>: the first food of least raw Manhattan distance.\<close>

fun nearestFood :: "pos \<Rightarrow> pos list \<Rightarrow> pos option \<times> int option \<Rightarrow> pos option" where
  "nearestFood head [] (target, minDist) = target"
| "nearestFood head (f # fs) (target, minDist) =
     (let d = \<bar>fst f - fst head\<bar> + \<bar>snd f - snd head\<bar>
      in if (case minDist of None \<Rightarrow> True | Some m \<Rightarrow> d < m)
         then nearestFood head fs (Some f, Some d)
         else nearestFood head fs (target, minDist))"

text \<open>
  Part A of step 4: the path to the food and its safety check. \<open>Some m\<close> is
  \<open>return bestMove\<close>, \<open>None\<close> falls through. \<open>space >= length / 2\<close> is
  written \<open>2 * space \<ge> length\<close>.
\<close>

definition foodPathCheck ::
  "int \<Rightarrow> int \<Rightarrow> pos \<Rightarrow> gameState \<Rightarrow> player \<Rightarrow> settings \<Rightarrow> direction list \<Rightarrow>
   error + direction option" where
  "foodPathCheck W H head gs pl st safeMoves =
     (case findPathToClosestFood W H head gs (pid pl) of
        Inl e \<Rightarrow> Inl e
      | Inr None \<Rightarrow> Inr None
      | Inr (Some (firstMove, d)) \<Rightarrow>
          if firstMove \<in> set safeMoves then
            (let nextPos = getNextCoord W H head firstMove (wallMode gs)
             in if safetyCheck st then
                  (case countAccessibleTiles W H nextPos gs (pid pl) (int (length (snake pl))) of
                     Inl e \<Rightarrow> Inl e
                   | Inr availableSpace \<Rightarrow>
                       if availableSpace \<ge> int (length (snake pl))
                       then Inr (Some firstMove) else Inr None)
                else
                  (case countAccessibleTiles W H nextPos gs (pid pl) 20 of
                     Inl e \<Rightarrow> Inl e
                   | Inr space \<Rightarrow>
                       if 2 * space \<ge> int (length (snake pl))
                       then Inr (Some firstMove) else Inr None))
          else Inr None)"

text \<open>Part B of step 4: survival mode, which always returns.\<close>

definition survivalMode ::
  "int \<Rightarrow> int \<Rightarrow> pos \<Rightarrow> gameState \<Rightarrow> player \<Rightarrow> direction list \<Rightarrow> error + direction option" where
  "survivalMode W H head gs pl safeMoves =
     (case survivalScan W H head gs (pid pl) safeMoves (None, - 1) of
        Inl e \<Rightarrow> Inl e
      | Inr (bestSurvivalMove, maxSpace) \<Rightarrow>
          if maxSpace \<ge> int (length (snake pl)) then Inr bestSurvivalMove
          else (case fst (closestScan W H head gs (last (snake pl)) safeMoves (None, None)) of
                  Some closestToTail \<Rightarrow> Inr (Some closestToTail)
                | None \<Rightarrow> Inr bestSurvivalMove))"

text \<open>
  Step 5: the straight preference, which draws a random number only when the tier
  does not use pathfinding and the heading is safe, then the hot/cold steering.
\<close>

definition fallbackMove ::
  "int \<Rightarrow> int \<Rightarrow> (nat \<Rightarrow> rat) \<Rightarrow> pos \<Rightarrow> gameState \<Rightarrow> player \<Rightarrow> settings \<Rightarrow>
   direction list \<Rightarrow> nat \<Rightarrow> direction option \<times> nat" where
  "fallbackMove W H rnd head gs pl st safeMoves k =
     (let straight = (\<not> usePathfinding st \<and> direction pl \<in> set safeMoves)
      in if straight \<and> rnd k < 6 / 10 then (Some (direction pl), k + 1)
         else
           (let k' = (if straight then k + 1 else k)
            in case nearestFood head (food gs)
                      (case food gs of [] \<Rightarrow> None | f # fs \<Rightarrow> Some f, None) of
                 None \<Rightarrow> (Some (hd safeMoves), k')
               | Some t \<Rightarrow>
                   (fst (closestScan W H head gs t safeMoves (Some (hd safeMoves), None)), k')))"

text \<open>
  \<open>decideNPCMove\<close> returns the proposed direction (\<open>None\<close> for \<open>null\<close>) or the
  exception, the NPC record after its mutation, and the index of the next random
  draw.
\<close>

definition decideNPCMove ::
  "int \<Rightarrow> int \<Rightarrow> (nat \<Rightarrow> rat) \<Rightarrow> npc \<Rightarrow> gameState \<Rightarrow> player \<Rightarrow> nat \<Rightarrow>
   (error + direction option) \<times> npc \<times> nat" where
  "decideNPCMove W H rnd n gs pl k =
     (if \<not> isAlive pl \<or> snake pl = [] then (Inr None, n, k)
      else
        (let st = getDifficultySettings (effectiveDifficulty n pl)
         in if decisionDelay n > 0 then (Inr None, n\<lparr>decisionDelay := decisionDelay n - 1\<rparr>, k)
            else
              (let n' = n\<lparr>decisionDelay := reactionDelayFrames st\<rparr>;
                   head = hd (snake pl)
               in case filterSafe W H head gs (pid pl) possibleMoves of
                    Inl e \<Rightarrow> (Inl e, n', k)
                  | Inr safeMoves \<Rightarrow>
                      if safeMoves = [] then (Inr None, n', k)
                      else if rnd k < errorChance st then
                        (Inr (pickAt safeMoves \<lfloor>rnd (k + 1) * of_nat (length safeMoves)\<rfloor>),
                         n', k + 2)
                      else if usePathfinding st then
                        (case foodPathCheck W H head gs pl st safeMoves of
                           Inl e \<Rightarrow> (Inl e, n', k + 1)
                         | Inr (Some m) \<Rightarrow> (Inr (Some m), n', k + 1)
                         | Inr None \<Rightarrow>
                             if safetyCheck st
                             then (survivalMode W H head gs pl safeMoves, n', k + 1)
                             else (let (r, k') = fallbackMove W H rnd head gs pl st safeMoves (k + 1)
                                   in (Inr r, n', k')))
                      else (let (r, k') = fallbackMove W H rnd head gs pl st safeMoves (k + 1)
                            in (Inr r, n', k')))))"

section \<open>The tick dispatcher\<close>

definition opposites :: "direction \<Rightarrow> direction" where
  "opposites d = (case d of Up \<Rightarrow> Down | Down \<Rightarrow> Up | Left \<Rightarrow> Right | Right \<Rightarrow> Left)"

text \<open>
  The body of the \<open>forEach\<close> for the player at index \<open>i\<close>. The state is the game
  state, the map of NPCs and the index of the next random draw; the first component
  of the result is the exception, if one was raised. The mutation of the NPC made
  before an exception stays.
\<close>

definition npcTurn ::
  "int \<Rightarrow> int \<Rightarrow> (nat \<Rightarrow> rat) \<Rightarrow> nat \<Rightarrow> gameState \<times> (string \<rightharpoonup> npc) \<times> nat \<Rightarrow>
   error option \<times> gameState \<times> (string \<rightharpoonup> npc) \<times> nat" where
  "npcTurn W H rnd i s =
     (case s of (gs, npcs, k) \<Rightarrow>
        (let pl = players gs ! i
         in if ptype pl \<noteq> ''npc'' \<or> \<not> isAlive pl then (None, gs, npcs, k)
            else
              (case npcs (pid pl) of
                 None \<Rightarrow> (None, gs, npcs, k)
               | Some n \<Rightarrow>
                   (case decideNPCMove W H rnd n gs pl k of
                      (res, n', k') \<Rightarrow>
                        (let npcs' = npcs(pid pl \<mapsto> n')
                         in case res of
                              Inl e \<Rightarrow> (Some e, gs, npcs', k')
                            | Inr None \<Rightarrow> (None, gs, npcs', k')
                            | Inr (Some d) \<Rightarrow>
                                if opposites d \<noteq> direction pl
                                then (None,
                                      gs\<lparr>players := (players gs)[i := pl\<lparr>nextDirection := d\<rparr>]\<rparr>,
                                      npcs', k')
                                else (None, gs, npcs', k'))))))"

fun processPlayers ::
  "int \<Rightarrow> int \<Rightarrow> (nat \<Rightarrow> rat) \<Rightarrow> nat list \<Rightarrow> gameState \<times> (string \<rightharpoonup> npc) \<times> nat \<Rightarrow>
   error option \<times> gameState \<times> (string \<rightharpoonup> npc) \<times> nat" where
  "processPlayers W H rnd [] s = (None, s)"
| "processPlayers W H rnd (i # is) s =
     (case npcTurn W H rnd i s of
        (Some e, s') \<Rightarrow> (Some e, s')
      | (None, s') \<Rightarrow> processPlayers W H rnd is s')"

definition processNPCInputs ::
  "int \<Rightarrow> int \<Rightarrow> (nat \<Rightarrow> rat) \<Rightarrow> gameState \<Rightarrow> (string \<rightharpoonup> npc) \<Rightarrow> nat \<Rightarrow>
   error option \<times> gameState \<times> (string \<rightharpoonup> npc) \<times> nat" where
  "processNPCInputs W H rnd gs npcs k =
     processPlayers W H rnd [0..<length (players gs)] (gs, npcs, k)"

section \<open>Notions used to state the properties\<close>

text \<open>
  The data invariant of the specification: a living player's snake has at least one
  segment. Without it \<open>isOccupied\<close> raises.
\<close>

definition snakesNonEmpty :: "gameState \<Rightarrow> bool" where
  "snakesNonEmpty gs = list_all (\<lambda>pl. \<not> isAlive pl \<or> snake pl \<noteq> []) (players gs)"

text \<open>A cell is blocked when it is outside a walled grid or on a living snake.\<close>

definition blocked :: "int \<Rightarrow> int \<Rightarrow> gameState \<Rightarrow> pos \<Rightarrow> bool" where
  "blocked W H gs p =
     ((wallMode gs \<and> outOfBounds W H p) \<or>
      list_ex (\<lambda>pl. isAlive pl \<and> p \<in> set (snake pl)) (players gs))"

text \<open>
  The two fields the dispatcher may write, wiped: a player without its pending
  direction and an NPC without its reaction-delay counter. \<open>botAt gs key\<close> says that
  \<open>key\<close> is the id of a living bot player. \<open>turnRel\<close> relates the state before some
  turns of the dispatcher to the state after them.
\<close>

definition erasePending :: "player \<Rightarrow> player" where
  "erasePending pl = pl\<lparr>nextDirection := Up\<rparr>"

definition eraseDelay :: "npc \<Rightarrow> npc" where
  "eraseDelay n = n\<lparr>decisionDelay := 0\<rparr>"

definition botAt :: "gameState \<Rightarrow> string \<Rightarrow> bool" where
  "botAt gs key = list_ex (\<lambda>pl. pid pl = key \<and> ptype pl = ''npc'' \<and> isAlive pl) (players gs)"

definition turnRel ::
  "gameState \<times> (string \<rightharpoonup> npc) \<times> nat \<Rightarrow> gameState \<times> (string \<rightharpoonup> npc) \<times> nat \<Rightarrow> bool" where
  "turnRel s s' =
     (case (s, s') of ((gs, npcs, k), (gs', npcs', k')) \<Rightarrow>
        wallMode gs' = wallMode gs \<and> food gs' = food gs \<and>
        map erasePending (players gs') = map erasePending (players gs) \<and>
        (\<forall>i < length (players gs).
            nextDirection (players gs' ! i) = nextDirection (players gs ! i) \<or>
            (opposites (nextDirection (players gs' ! i)) \<noteq> direction (players gs ! i) \<and>
             ptype (players gs ! i) = ''npc'' \<and> isAlive (players gs ! i))) \<and>
        (\<forall>key. map_option eraseDelay (npcs' key) = map_option eraseDelay (npcs key) \<and>
               (npcs' key = npcs key \<or> botAt gs key)))"

text \<open>Small concrete states on a walled 10 by 10 grid, for the examples.\<close>

definition demoBot :: player where
  "demoBot = \<lparr>pid = ''bot'', ptype = ''npc'', isAlive = True, snake = [(5, 5)],
              direction = Right, nextDirection = Right\<rparr>"

definition demoState :: "pos list \<Rightarrow> gameState" where
  "demoState fd = \<lparr>wallMode = True, players = [demoBot], food = fd\<rparr>"

definition demoNpcs :: "string \<Rightarrow> string \<rightharpoonup> npc" where
  "demoNpcs diff = [''bot'' \<mapsto> createNPC ''bot'' ''Bot'' diff]"

text \<open>
  A walled corridor of 60 cells in one row: the bot is a single segment in the
  leftmost cell and the only food lies \<open>n\<close> cells to its right.
\<close>

definition capState :: "int \<Rightarrow> gameState" where
  "capState n =
     \<lparr>wallMode = True,
      players = [\<lparr>pid = ''bot'', ptype = ''npc'', isAlive = True, snake = [(0, 0)],
                  direction = Right, nextDirection = Right\<rparr>],
      food = [(n, 0)]\<rparr>"

text \<open>
  A walled grid of 20 by 12 cells on which a bot of the top tier has coiled through
  the upper rows: its 101 segments run from the head at \<open>(19, 5)\<close> through
  \<open>(18, 5)\<close> and \<open>(17, 5)\<close>, then along the rows 4, 3, 2, 1 and 0 in turn, to the
  tail at \<open>(0, 0)\<close>. The two cells \<open>(18, 4)\<close> and \<open>(19, 4)\<close> above the head are
  free and enclosed by the body; the food lies on \<open>(19, 4)\<close>. Below the head the
  rest of the grid is open.
\<close>

definition coilSnake :: "pos list" where
  "coilSnake =
     [(19, 5), (18, 5), (17, 5)] @
     map (\<lambda>x. (x, 4)) (rev [0..17]) @
     map (\<lambda>x. (x, 3)) [0..19] @
     map (\<lambda>x. (x, 2)) (rev [0..19]) @
     map (\<lambda>x. (x, 1)) [0..19] @
     map (\<lambda>x. (x, 0)) (rev [0..19])"

definition coilBot :: player where
  "coilBot = \<lparr>pid = ''bot'', ptype = ''npc'', isAlive = True, snake = coilSnake,
              direction = Right, nextDirection = Right\<rparr>"

definition coilState :: gameState where
  "coilState = \<lparr>wallMode = True, players = [coilBot], food = [(19, 4)]\<rparr>"

text \<open>
  The grid graph: \<open>stepTo\<close> is one step of \<open>getNextCoord\<close> in the topology of
  the state. \<open>freshMoves\<close> lists the moves whose next cell the loop over the moves
  accepts (not visited before, not blocked). \<open>reachable\<close> is the set of cells that
  can be reached from a start cell through cells that are not blocked, the start
  cell included.
\<close>

definition stepTo :: "int \<Rightarrow> int \<Rightarrow> gameState \<Rightarrow> pos \<Rightarrow> direction \<Rightarrow> pos" where
  "stepTo W H gs p m = getNextCoord W H p m (wallMode gs)"

fun freshMoves :: "int \<Rightarrow> int \<Rightarrow> gameState \<Rightarrow> pos \<Rightarrow> direction list \<Rightarrow> pos set \<Rightarrow> direction list" where
  "freshMoves W H gs p [] V = []"
| "freshMoves W H gs p (m # ms) V =
     (if stepTo W H gs p m \<notin> V \<and> \<not> blocked W H gs (stepTo W H gs p m)
      then m # freshMoves W H gs p ms (insert (stepTo W H gs p m) V)
      else freshMoves W H gs p ms V)"

inductive_set reachable :: "int \<Rightarrow> int \<Rightarrow> gameState \<Rightarrow> pos \<Rightarrow> pos set"
  for W :: int and H :: int and gs :: gameState and start :: pos where
  start: "start \<in> reachable W H gs start"
| step: "p \<in> reachable W H gs start \<Longrightarrow> \<not> blocked W H gs (getNextCoord W H p m (wallMode gs)) \<Longrightarrow>
         getNextCoord W H p m (wallMode gs) \<in> reachable W H gs start"

text \<open>
  The reachable space behind a move of the head, as survival mode measures it: the
  number of reachable cells from the next cell, capped at 100.
\<close>

definition cappedSpace :: "int \<Rightarrow> int \<Rightarrow> gameState \<Rightarrow> pos \<Rightarrow> direction \<Rightarrow> int" where
  "cappedSpace W H gs head m =
     min 100 (int (card (reachable W H gs (getNextCoord W H head m (wallMode gs)))))"

text \<open>
  Walks from a start cell: a list of directions \<open>ds\<close> leads to \<open>walkEnd ds\<close>, and
  is free when every cell it steps on is not blocked (the start cell itself is not
  looked at: it is the head of the snake). A food walk is a non-empty free walk that
  ends on a food cell; its length is the number of steps.

  The order of the directions is the order of the array \<open>['up', 'down', 'left',
  'right']\<close>; \<open>lexLe\<close> is the lexicographic order on walks it induces. \<open>walkCode\<close>
  numbers the walks (bijective base 4) so that a shorter walk, or a walk of the same
  length that is lexicographically smaller, has the smaller number.
\<close>

fun walkEnd :: "int \<Rightarrow> int \<Rightarrow> gameState \<Rightarrow> pos \<Rightarrow> direction list \<Rightarrow> pos" where
  "walkEnd W H gs p [] = p"
| "walkEnd W H gs p (m # ms) = walkEnd W H gs (stepTo W H gs p m) ms"

fun walkFree :: "int \<Rightarrow> int \<Rightarrow> gameState \<Rightarrow> pos \<Rightarrow> direction list \<Rightarrow> bool" where
  "walkFree W H gs p [] = True"
| "walkFree W H gs p (m # ms) =
     (\<not> blocked W H gs (stepTo W H gs p m) \<and> walkFree W H gs (stepTo W H gs p m) ms)"

definition foodWalk :: "int \<Rightarrow> int \<Rightarrow> gameState \<Rightarrow> pos \<Rightarrow> direction list \<Rightarrow> bool" where
  "foodWalk W H gs start ds =
     (ds \<noteq> [] \<and> walkFree W H gs start ds \<and> walkEnd W H gs start ds \<in> set (food gs))"

fun moveRank :: "direction \<Rightarrow> nat" where
  "moveRank Up = 0"
| "moveRank Down = 1"
| "moveRank Left = 2"
| "moveRank Right = 3"

fun lexLe :: "direction list \<Rightarrow> direction list \<Rightarrow> bool" where
  "lexLe [] ys = True"
| "lexLe (x # xs) [] = False"
| "lexLe (x # xs) (y # ys) = (moveRank x < moveRank y \<or> (x = y \<and> lexLe xs ys))"

definition walkCode :: "direction list \<Rightarrow> nat" where
  "walkCode ds = foldl (\<lambda>c m. 4 * c + moveRank m + 1) 0 ds"

text \<open>
  The queue entry that stands for a walk, and the invariant of the while loop of the
  search: \<open>P\<close> holds the walks whose entries were taken from the queue, \<open>ws\<close> the
  walks whose entries are in the queue, in order.
\<close>

definition entryOf :: "int \<Rightarrow> int \<Rightarrow> gameState \<Rightarrow> pos \<Rightarrow> direction list \<Rightarrow> qentry" where
  "entryOf W H gs start w = (walkEnd W H gs start w, hd w, int (length w))"

definition bfsInv ::
  "int \<Rightarrow> int \<Rightarrow> gameState \<Rightarrow> pos \<Rightarrow> direction list set \<Rightarrow> direction list list \<Rightarrow>
   pos set \<Rightarrow> bool" where
  "bfsInv W H gs start P ws V =
     ((\<forall>w \<in> P \<union> set ws. w \<noteq> [] \<and> walkFree W H gs start w \<and> length w \<le> 51) \<and>
      sorted_wrt (\<lambda>a b. walkCode a < walkCode b) ws \<and>
      (\<forall>u \<in> P. \<forall>w \<in> set ws. walkCode u < walkCode w) \<and>
      V = walkEnd W H gs start ` (P \<union> set ws) \<and>
      (\<forall>u \<in> P. walkEnd W H gs start u \<notin> set (food gs)) \<and>
      (\<forall>u \<in> P. length u \<le> 50 \<longrightarrow>
         (\<forall>m. \<not> blocked W H gs (stepTo W H gs (walkEnd W H gs start u) m) \<longrightarrow>
            (\<exists>e \<in> P \<union> set ws.
               walkEnd W H gs start e = stepTo W H gs (walkEnd W H gs start u) m \<and>
               walkCode e \<le> walkCode (u @ [m])))) \<and>
      (\<forall>m. \<not> blocked W H gs (stepTo W H gs start m) \<longrightarrow> [m] \<in> P \<union> set ws) \<and>
      (ws \<noteq> [] \<longrightarrow> (\<forall>e \<in> P \<union> set ws. walkCode e \<le> 4 * walkCode (hd ws))))"

definition bfsPost ::
  "int \<Rightarrow> int \<Rightarrow> gameState \<Rightarrow> pos \<Rightarrow> error + (direction \<times> int) option \<Rightarrow> bool" where
  "bfsPost W H gs start r =
     (case r of
        Inl e \<Rightarrow> False
      | Inr None \<Rightarrow> \<not> (\<exists>ds. foodWalk W H gs start ds \<and> length ds \<le> 51)
      | Inr (Some (fm, d)) \<Rightarrow>
          (\<exists>w. foodWalk W H gs start w \<and> fm = hd w \<and> d = int (length w) \<and> length w \<le> 51 \<and>
               (\<forall>ds. foodWalk W H gs start ds \<longrightarrow> walkCode w \<le> walkCode ds)))"

section \<open>The occupancy oracle\<close>

lemma occupiedBy_pure:
  "list_all (\<lambda>pl. \<not> isAlive pl \<or> snake pl \<noteq> []) pls \<Longrightarrow>
   occupiedBy pls p = Inr (list_ex (\<lambda>pl. isAlive pl \<and> p \<in> set (snake pl)) pls)"
proof (induction pls)
  case Nil
  then show ?case by simp
next
  case (Cons pl pls)
  show ?case
  proof (cases "isAlive pl")
    case False
    with Cons show ?thesis by simp
  next
    case True
    with Cons.prems have ne: "snake pl \<noteq> []" by simp
    then have "set (snake pl) = insert (last (snake pl)) (set (butlast (snake pl)))"
      by (metis append_butlast_last_id list.simps(15) rotate1.simps(2) set_rotate1)
    with True ne Cons show ?thesis by auto
  qed
qed

lemma isOccupied_blocked:
  "snakesNonEmpty gs \<Longrightarrow> isOccupied W H p gs myId = Inr (blocked W H gs p)"
  by (auto simp add: isOccupied_def blocked_def snakesNonEmpty_def occupiedBy_pure)

text \<open>
  Without the invariant the oracle can raise: a living player without segments makes
  it read \<open>tail.x\<close> of \<open>undefined\<close>.
\<close>

lemma isOccupied_raises:
  "isOccupied 10 10 (4, 5)
     \<lparr>wallMode = True, players = [demoBot\<lparr>snake := []\<rparr>], food = []\<rparr> ''bot''
     = Inl TypeError"
  by (simp add: isOccupied_def outOfBounds_def demoBot_def)

text \<open>
  C7. When every living player has at least one segment, \<open>isOccupied\<close> returns
  \<open>true\<close> exactly when the grid is walled and the position is outside it, or some
  living player's snake has a segment on the position, the last segment included;
  cells of dead players only and free cells inside the grid give \<open>false\<close>.
\<close>

theorem isOccupied_iff:
  assumes "snakesNonEmpty gs"
  shows "isOccupied W H p gs myId =
           Inr ((wallMode gs \<and> (fst p < 0 \<or> W \<le> fst p \<or> snd p < 0 \<or> H \<le> snd p))
                \<or> (\<exists>pl \<in> set (players gs). isAlive pl \<and> p \<in> set (snake pl)))"
  using isOccupied_blocked [OF assms, of W H p myId]
  by (simp add: blocked_def outOfBounds_def list_ex_iff)

theorem isOccupied_iff_witness:
  "snakesNonEmpty (demoState []) \<and>
   isOccupied 10 10 (5, 5) (demoState []) ''bot'' = Inr True \<and>
   isOccupied 10 10 (4, 5) (demoState []) ''bot'' = Inr False \<and>
   isOccupied 10 10 (10, 5) (demoState []) ''bot'' = Inr True"
proof -
  have h: "snakesNonEmpty (demoState [])"
    by (simp add: snakesNonEmpty_def demoState_def demoBot_def)
  show ?thesis
    using h isOccupied_iff [OF h, of 10 10 "(5, 5)" "''bot''"]
      isOccupied_iff [OF h, of 10 10 "(4, 5)" "''bot''"]
      isOccupied_iff [OF h, of 10 10 "(10, 5)" "''bot''"]
    by (simp add: demoState_def demoBot_def)
qed

section \<open>The tick dispatcher: what it writes\<close>


lemma decide_npc_frame:
  "fst (snd (decideNPCMove W H rnd n gs pl k)) = n\<lparr>decisionDelay := decisionDelay (fst (snd (decideNPCMove W H rnd n gs pl k)))\<rparr>"
  by (simp add: decideNPCMove_def Let_def split: sum.splits option.splits prod.splits)

lemma erasePending_fields:
  "erasePending a = erasePending b \<Longrightarrow>
   pid a = pid b \<and> ptype a = ptype b \<and> isAlive a = isAlive b \<and> snake a = snake b \<and>
   direction a = direction b"
  by (cases a, cases b) (simp add: erasePending_def)

lemma erasePending_nth:
  assumes "map erasePending xs = map erasePending ys" and "i < length ys"
  shows "erasePending (xs ! i) = erasePending (ys ! i)"
proof -
  have "length xs = length ys" using assms(1) by (rule map_eq_imp_length_eq)
  then have "map erasePending xs ! i = erasePending (xs ! i)" "map erasePending ys ! i = erasePending (ys ! i)"
    using assms(2) by simp_all
  then show ?thesis using assms(1) by simp
qed

lemma botAt_cong:
  assumes "map erasePending (players gs') = map erasePending (players gs)"
  shows "botAt gs' key = botAt gs key"
proof -
  have "map (\<lambda>pl. pid pl = key \<and> ptype pl = ''npc'' \<and> isAlive pl) (players gs')
      = map ((\<lambda>pl. pid pl = key \<and> ptype pl = ''npc'' \<and> isAlive pl) \<circ> erasePending) (players gs')"
    by (simp add: erasePending_def)
  also have "\<dots> = map (\<lambda>pl. pid pl = key \<and> ptype pl = ''npc'' \<and> isAlive pl) (map erasePending (players gs'))"
    by simp
  also have "\<dots> = map (\<lambda>pl. pid pl = key \<and> ptype pl = ''npc'' \<and> isAlive pl) (map erasePending (players gs))"
    using assms by simp
  also have "\<dots> = map (\<lambda>pl. pid pl = key \<and> ptype pl = ''npc'' \<and> isAlive pl) (players gs)"
    by (simp add: erasePending_def)
  finally have "map (\<lambda>pl. pid pl = key \<and> ptype pl = ''npc'' \<and> isAlive pl) (players gs')
      = map (\<lambda>pl. pid pl = key \<and> ptype pl = ''npc'' \<and> isAlive pl) (players gs)" .
  then have "(True \<in> set (map (\<lambda>pl. pid pl = key \<and> ptype pl = ''npc'' \<and> isAlive pl) (players gs')))
      = (True \<in> set (map (\<lambda>pl. pid pl = key \<and> ptype pl = ''npc'' \<and> isAlive pl) (players gs)))"
    by simp
  then show ?thesis by (auto simp: botAt_def list_ex_iff)
qed

lemma turnRel_refl: "turnRel s s"
  by (auto simp: turnRel_def split: prod.splits)

lemma turnRel_trans:
  assumes "turnRel s s'" and "turnRel s' s''"
  shows "turnRel s s''"
proof -
  obtain gs npcs k where s: "s = (gs, npcs, k)" by (cases s)
  obtain gs' npcs' k' where s': "s' = (gs', npcs', k')" by (cases s')
  obtain gs'' npcs'' k'' where s'': "s'' = (gs'', npcs'', k'')" by (cases s'')
  have a: "wallMode gs' = wallMode gs" "food gs' = food gs"
      "map erasePending (players gs') = map erasePending (players gs)"
    and ap: "\<And>i. i < length (players gs) \<Longrightarrow>
            nextDirection (players gs' ! i) = nextDirection (players gs ! i) \<or>
            (opposites (nextDirection (players gs' ! i)) \<noteq> direction (players gs ! i) \<and>
             ptype (players gs ! i) = ''npc'' \<and> isAlive (players gs ! i))"
    and an: "\<And>key. map_option eraseDelay (npcs' key) = map_option eraseDelay (npcs key) \<and>
               (npcs' key = npcs key \<or> botAt gs key)"
    using assms(1) s s' by (auto simp: turnRel_def)
  have b: "wallMode gs'' = wallMode gs'" "food gs'' = food gs'"
      "map erasePending (players gs'') = map erasePending (players gs')"
    and bp: "\<And>i. i < length (players gs') \<Longrightarrow>
            nextDirection (players gs'' ! i) = nextDirection (players gs' ! i) \<or>
            (opposites (nextDirection (players gs'' ! i)) \<noteq> direction (players gs' ! i) \<and>
             ptype (players gs' ! i) = ''npc'' \<and> isAlive (players gs' ! i))"
    and bn: "\<And>key. map_option eraseDelay (npcs'' key) = map_option eraseDelay (npcs' key) \<and>
               (npcs'' key = npcs' key \<or> botAt gs' key)"
    using assms(2) s' s'' by (auto simp: turnRel_def)
  have len: "length (players gs') = length (players gs)"
    using a(3) by (rule map_eq_imp_length_eq)
  have c3: "\<forall>i < length (players gs).
            nextDirection (players gs'' ! i) = nextDirection (players gs ! i) \<or>
            (opposites (nextDirection (players gs'' ! i)) \<noteq> direction (players gs ! i) \<and>
             ptype (players gs ! i) = ''npc'' \<and> isAlive (players gs ! i))"
  proof (intro allI impI)
    fix i assume i: "i < length (players gs)"
    then have i': "i < length (players gs')" using len by simp
    have same: "ptype (players gs' ! i) = ptype (players gs ! i)"
       "isAlive (players gs' ! i) = isAlive (players gs ! i)"
       "direction (players gs' ! i) = direction (players gs ! i)"
      using erasePending_fields [OF erasePending_nth [OF a(3) i]] by simp_all
    show "nextDirection (players gs'' ! i) = nextDirection (players gs ! i) \<or>
            (opposites (nextDirection (players gs'' ! i)) \<noteq> direction (players gs ! i) \<and>
             ptype (players gs ! i) = ''npc'' \<and> isAlive (players gs ! i))"
      using ap [OF i] bp [OF i'] same by auto
  qed
  have c4: "\<forall>key. map_option eraseDelay (npcs'' key) = map_option eraseDelay (npcs key) \<and>
               (npcs'' key = npcs key \<or> botAt gs key)"
    using an bn botAt_cong [OF a(3)] by metis
  show ?thesis using a b c3 c4 s s'' by (simp add: turnRel_def)
qed

lemma npcTurn_rel:
  assumes "i < length (players (fst s))" and "npcTurn W H rnd i s = (e, s')"
  shows "turnRel s s'"
proof -
  obtain gs npcs k where s: "s = (gs, npcs, k)" by (cases s)
  let ?pl = "players gs ! i"
  have i: "i < length (players gs)" using assms(1) s by simp
  then have plin: "?pl \<in> set (players gs)" by simp
  show ?thesis
  proof (cases "ptype ?pl \<noteq> ''npc'' \<or> \<not> isAlive ?pl")
    case True
    then have "s' = s" using assms(2) s by (auto simp: npcTurn_def Let_def)
    then show ?thesis by (simp add: turnRel_refl)
  next
    case act: False
    show ?thesis
    proof (cases "npcs (pid ?pl)")
      case None
      then have "s' = s" using assms(2) s act by (auto simp: npcTurn_def Let_def)
      then show ?thesis by (simp add: turnRel_refl)
    next
      case (Some n)
      obtain res n' k' where d: "decideNPCMove W H rnd n gs ?pl k = (res, n', k')"
        by (cases "decideNPCMove W H rnd n gs ?pl k")
      have n': "eraseDelay n' = eraseDelay n"
        using decide_npc_frame [of W H rnd n gs ?pl k] d
        by (metis eraseDelay_def fst_conv snd_conv npc.update_convs(6) npc.surjective)
      have bot: "botAt gs (pid ?pl)"
        using act plin by (auto simp: botAt_def list_ex_iff)
      have npcsOK: "\<forall>key. map_option eraseDelay ((npcs(pid ?pl \<mapsto> n')) key) = map_option eraseDelay (npcs key) \<and>
               ((npcs(pid ?pl \<mapsto> n')) key = npcs key \<or> botAt gs key)"
        using Some n' bot by auto
      consider (same) "s' = (gs, npcs(pid ?pl \<mapsto> n'), k')"
        | (wrote) dd where "res = Inr (Some dd)" "opposites dd \<noteq> direction ?pl"
            "s' = (gs\<lparr>players := (players gs)[i := ?pl\<lparr>nextDirection := dd\<rparr>]\<rparr>, npcs(pid ?pl \<mapsto> n'), k')"
        using assms(2) s act Some d
        by (auto simp: npcTurn_def Let_def split: sum.splits option.splits if_splits)
      then show ?thesis
      proof cases
        case same
        then show ?thesis using npcsOK s by (simp add: turnRel_def)
      next
        case wrote
        have e: "map erasePending ((players gs)[i := ?pl\<lparr>nextDirection := dd\<rparr>]) = map erasePending (players gs)"
          using i by (simp add: map_update erasePending_def list_update_same_conv)
        have "\<forall>j < length (players gs).
           (nextDirection ((players gs)[i := ?pl\<lparr>nextDirection := dd\<rparr>] ! j) = nextDirection (players gs ! j) \<or>
            (opposites (nextDirection ((players gs)[i := ?pl\<lparr>nextDirection := dd\<rparr>] ! j)) \<noteq> direction (players gs ! j) \<and>
             ptype (players gs ! j) = ''npc'' \<and> isAlive (players gs ! j)))"
        proof (intro allI impI)
          fix j assume j: "j < length (players gs)"
          show "nextDirection ((players gs)[i := ?pl\<lparr>nextDirection := dd\<rparr>] ! j) = nextDirection (players gs ! j) \<or>
            (opposites (nextDirection ((players gs)[i := ?pl\<lparr>nextDirection := dd\<rparr>] ! j)) \<noteq> direction (players gs ! j) \<and>
             ptype (players gs ! j) = ''npc'' \<and> isAlive (players gs ! j))"
          proof (cases "j = i")
            case True
            then show ?thesis using wrote(2) act i by simp
          next
            case False
            then show ?thesis by simp
          qed
        qed
        then show ?thesis using npcsOK s wrote(3) e by (simp add: turnRel_def)
      qed
    qed
  qed
qed

lemma turnRel_length: "turnRel s s' \<Longrightarrow> length (players (fst s')) = length (players (fst s))"
  by (auto simp: turnRel_def split: prod.splits dest: map_eq_imp_length_eq)

lemma processPlayers_rel:
  "\<forall>i \<in> set is. i < length (players (fst s)) \<Longrightarrow> processPlayers W H rnd is s = (e, s') \<Longrightarrow> turnRel s s'"
proof (induction "is" arbitrary: s)
  case Nil
  then show ?case by (simp add: turnRel_refl)
next
  case (Cons i "is")
  obtain e1 s1 where t: "npcTurn W H rnd i s = (e1, s1)" by (cases "npcTurn W H rnd i s")
  have r1: "turnRel s s1" using npcTurn_rel [OF _ t] Cons.prems(1) by simp
  show ?case
  proof (cases e1)
    case None
    then have "processPlayers W H rnd is s1 = (e, s')" using Cons.prems(2) t by simp
    moreover have "\<forall>i \<in> set is. i < length (players (fst s1))"
      using Cons.prems(1) turnRel_length [OF r1] by simp
    ultimately have "turnRel s1 s'" using Cons.IH by blast
    with r1 show ?thesis by (rule turnRel_trans)
  next
    case (Some a)
    then have "s' = s1" using Cons.prems(2) t by simp
    with r1 show ?thesis by simp
  qed
qed

lemma processNPCInputs_rel:
  "processNPCInputs W H rnd gs npcs k = (e, s') \<Longrightarrow> turnRel (gs, npcs, k) s'"
  using processPlayers_rel [of "[0..<length (players gs)]" "(gs, npcs, k)" W H rnd e s']
  by (simp add: processNPCInputs_def)

text \<open>
  C2. After a run of \<open>processNPCInputs\<close>, whatever the tier and the state, no
  player's heading has changed, and the pending direction of every player is either
  the one it had before the tick or a direction whose opposite is not the heading.
  In the body of the loop, when \<open>decideNPCMove\<close> proposes the exact opposite of the
  heading, the game state is left as it was.
\<close>

theorem reversal_guard:
  assumes "processNPCInputs W H rnd gs npcs k = (e, gs', npcs', k')"
    and "i < length (players gs)"
  shows "direction (players gs' ! i) = direction (players gs ! i) \<and>
         (nextDirection (players gs' ! i) = nextDirection (players gs ! i) \<or>
          opposites (nextDirection (players gs' ! i)) \<noteq> direction (players gs ! i)) \<and>
         (\<forall>gs1 npcs1 k1 j n d.
            npcs1 (pid (players gs1 ! j)) = Some n \<and>
            fst (decideNPCMove W H rnd n gs1 (players gs1 ! j) k1) = Inr (Some d) \<and>
            opposites d = direction (players gs1 ! j) \<longrightarrow>
            fst (snd (npcTurn W H rnd j (gs1, npcs1, k1))) = gs1)"
proof -
  have r: "turnRel (gs, npcs, k) (gs', npcs', k')"
    using assms(1) by (rule processNPCInputs_rel)
  then have m: "map erasePending (players gs') = map erasePending (players gs)"
    by (simp add: turnRel_def)
  have a: "direction (players gs' ! i) = direction (players gs ! i)"
    using erasePending_fields [OF erasePending_nth [OF m assms(2)]] by simp
  have b: "nextDirection (players gs' ! i) = nextDirection (players gs ! i) \<or>
          opposites (nextDirection (players gs' ! i)) \<noteq> direction (players gs ! i)"
    using r assms(2) by (auto simp: turnRel_def)
  have c: "fst (snd (npcTurn W H rnd j (gs1, npcs1, k1))) = gs1"
    if "npcs1 (pid (players gs1 ! j)) = Some n"
      and "fst (decideNPCMove W H rnd n gs1 (players gs1 ! j) k1) = Inr (Some d)"
      and "opposites d = direction (players gs1 ! j)" for gs1 npcs1 k1 j n d
    using that by (auto simp: npcTurn_def Let_def split: prod.splits)
  show ?thesis using a b c by blast
qed

lemma demo_turn_left:
  "decideNPCMove 10 10 (\<lambda>_. 1 / 2) (createNPC ''bot'' ''Bot'' ''hard'') (demoState [(3, 5)]) demoBot 0
     = (Inr (Some Left), createNPC ''bot'' ''Bot'' ''hard'', 1)"
  by code_simp

lemma demo_tick_left:
  "processNPCInputs 10 10 (\<lambda>_. 1 / 2) (demoState [(3, 5)]) (demoNpcs ''hard'') 0
     = (None, demoState [(3, 5)], demoNpcs ''hard'', 1)"
  using demo_turn_left
  by (simp add: processNPCInputs_def npcTurn_def demoState_def demoNpcs_def demoBot_def opposites_def)


theorem reversal_guard_witness:
  "processNPCInputs 10 10 (\<lambda>_. 1 / 2) (demoState [(3, 5)]) (demoNpcs ''hard'') 0
     = (None, demoState [(3, 5)], demoNpcs ''hard'', 1) \<and>
   (0::nat) < length (players (demoState [(3, 5)])) \<and>
   fst (decideNPCMove 10 10 (\<lambda>_. 1 / 2) (createNPC ''bot'' ''Bot'' ''hard'')
          (demoState [(3, 5)]) (players (demoState [(3, 5)]) ! 0) 0) = Inr (Some Left) \<and>
   opposites Left = direction (players (demoState [(3, 5)]) ! 0) \<and>
   nextDirection (players (demoState [(3, 5)]) ! 0) = Right \<and>
   fst (snd (npcTurn 10 10 (\<lambda>_. 1 / 2) 0 (demoState [(3, 5)], demoNpcs ''hard'', 0)))
     = demoState [(3, 5)]"
proof -
  have t: "processNPCInputs 10 10 (\<lambda>_. 1 / 2) (demoState [(3, 5)]) (demoNpcs ''hard'') 0
     = (None, demoState [(3, 5)], demoNpcs ''hard'', 1)"
    by (rule demo_tick_left)
  have i: "(0::nat) < length (players (demoState [(3, 5)]))"
    by (simp add: demoState_def)
  have pl: "players (demoState [(3, 5)]) ! 0 = demoBot"
    by (simp add: demoState_def)
  have n: "demoNpcs ''hard'' (pid (players (demoState [(3, 5)]) ! 0))
             = Some (createNPC ''bot'' ''Bot'' ''hard'')"
    by (simp add: pl demoNpcs_def demoBot_def)
  have d: "fst (decideNPCMove 10 10 (\<lambda>_. 1 / 2) (createNPC ''bot'' ''Bot'' ''hard'')
          (demoState [(3, 5)]) (players (demoState [(3, 5)]) ! 0) 0) = Inr (Some Left)"
    by (simp add: pl demo_turn_left)
  have o: "opposites Left = direction (players (demoState [(3, 5)]) ! 0)"
    by (simp add: pl opposites_def demoBot_def)
  have "fst (snd (npcTurn 10 10 (\<lambda>_. 1 / 2) 0 (demoState [(3, 5)], demoNpcs ''hard'', 0)))
     = demoState [(3, 5)]"
    using reversal_guard [OF t i] n d o by blast
  moreover have "nextDirection (players (demoState [(3, 5)]) ! 0) = Right"
    by (simp add: pl demoBot_def)
  ultimately show ?thesis using t i d o by simp
qed

text \<open>
  C9. A run of \<open>processNPCInputs\<close> leaves the game state as it was but for the
  list of players (so the topology flag and the food are unchanged; the grid
  dimensions are constants); every player is as before but for its pending direction,
  and a player that is not a living bot is unchanged; every NPC record is as before
  but for its reaction-delay counter, and only the records under the id of a living
  bot player may differ at all. This also holds for a run cut short by the exception.
\<close>

theorem dispatcher_frame:
  assumes "processNPCInputs W H rnd gs npcs k = (e, gs', npcs', k')"
  shows "gs' = gs\<lparr>players := players gs'\<rparr> \<and>
         length (players gs') = length (players gs) \<and>
         (\<forall>i < length (players gs).
            players gs' ! i = (players gs ! i)\<lparr>nextDirection := nextDirection (players gs' ! i)\<rparr> \<and>
            (players gs' ! i = players gs ! i \<or>
             (ptype (players gs ! i) = ''npc'' \<and> isAlive (players gs ! i)))) \<and>
         (\<forall>key.
            rel_option (\<lambda>n n'. n' = n\<lparr>decisionDelay := decisionDelay n'\<rparr>) (npcs key) (npcs' key) \<and>
            (npcs' key = npcs key \<or>
             (\<exists>pl \<in> set (players gs). pid pl = key \<and> ptype pl = ''npc'' \<and> isAlive pl)))"
proof -
  have r: "turnRel (gs, npcs, k) (gs', npcs', k')"
    using assms(1) by (rule processNPCInputs_rel)
  then have m: "map erasePending (players gs') = map erasePending (players gs)"
    and w: "wallMode gs' = wallMode gs" and f: "food gs' = food gs"
    by (simp_all add: turnRel_def)
  have len: "length (players gs') = length (players gs)"
    using m by (rule map_eq_imp_length_eq)
  have c1: "gs' = gs\<lparr>players := players gs'\<rparr>"
    using w f by (cases gs, cases gs') simp
  have c3: "players gs' ! i = (players gs ! i)\<lparr>nextDirection := nextDirection (players gs' ! i)\<rparr> \<and>
            (players gs' ! i = players gs ! i \<or>
             (ptype (players gs ! i) = ''npc'' \<and> isAlive (players gs ! i)))"
    if i: "i < length (players gs)" for i
  proof -
    have "erasePending (players gs' ! i) = erasePending (players gs ! i)"
      using erasePending_nth [OF m i] .
    then have eq: "players gs' ! i = (players gs ! i)\<lparr>nextDirection := nextDirection (players gs' ! i)\<rparr>"
      by (cases "players gs' ! i", cases "players gs ! i") (simp add: erasePending_def)
    have "nextDirection (players gs' ! i) = nextDirection (players gs ! i) \<or>
            (ptype (players gs ! i) = ''npc'' \<and> isAlive (players gs ! i))"
      using r i by (auto simp: turnRel_def)
    then show ?thesis using eq by (metis player.surjective player.update_convs(6))
  qed
  have c4: "rel_option (\<lambda>n n'. n' = n\<lparr>decisionDelay := decisionDelay n'\<rparr>) (npcs key) (npcs' key) \<and>
            (npcs' key = npcs key \<or>
             (\<exists>pl \<in> set (players gs). pid pl = key \<and> ptype pl = ''npc'' \<and> isAlive pl))" for key
  proof -
    have e: "map_option eraseDelay (npcs' key) = map_option eraseDelay (npcs key)"
      and b: "npcs' key = npcs key \<or> botAt gs key"
      using r by (simp_all add: turnRel_def)
    have "rel_option (\<lambda>n n'. n' = n\<lparr>decisionDelay := decisionDelay n'\<rparr>) (npcs key) (npcs' key)"
    proof (cases "npcs key")
      case None
      then show ?thesis using e by simp
    next
      case (Some n)
      then obtain n' where n': "npcs' key = Some n'" "eraseDelay n' = eraseDelay n"
        using e by (cases "npcs' key") auto
      from n'(2) have "n' = n\<lparr>decisionDelay := decisionDelay n'\<rparr>"
        by (cases n, cases n') (simp add: eraseDelay_def)
      then show ?thesis using Some n'(1) by simp
    qed
    then show ?thesis using b by (auto simp: botAt_def list_ex_iff)
  qed
  show ?thesis using c1 len c3 c4 by blast
qed

lemma demo_turn_up:
  "decideNPCMove 10 10 (\<lambda>_. 1 / 2) (createNPC ''bot'' ''Bot'' ''medium'') (demoState [(5, 3)]) demoBot 0
     = (Inr (Some Up), (createNPC ''bot'' ''Bot'' ''medium'')\<lparr>decisionDelay := 4\<rparr>, 1)"
  by code_simp

lemma demo_tick_up:
  "processNPCInputs 10 10 (\<lambda>_. 1 / 2) (demoState [(5, 3)]) (demoNpcs ''medium'') 0
     = (None, (demoState [(5, 3)])\<lparr>players := [demoBot\<lparr>nextDirection := Up\<rparr>]\<rparr>,
        [''bot'' \<mapsto> (createNPC ''bot'' ''Bot'' ''medium'')\<lparr>decisionDelay := 4\<rparr>], 1)"
  using demo_turn_up
  by (simp add: processNPCInputs_def npcTurn_def demoState_def demoNpcs_def demoBot_def opposites_def)

theorem dispatcher_frame_witness:
  "processNPCInputs 10 10 (\<lambda>_. 1 / 2) (demoState [(5, 3)]) (demoNpcs ''medium'') 0
     = (None, (demoState [(5, 3)])\<lparr>players := [demoBot\<lparr>nextDirection := Up\<rparr>]\<rparr>,
        [''bot'' \<mapsto> (createNPC ''bot'' ''Bot'' ''medium'')\<lparr>decisionDelay := 4\<rparr>], 1) \<and>
   length (players ((demoState [(5, 3)])\<lparr>players := [demoBot\<lparr>nextDirection := Up\<rparr>]\<rparr>))
     = length (players (demoState [(5, 3)])) \<and>
   rel_option (\<lambda>n n'. n' = n\<lparr>decisionDelay := decisionDelay n'\<rparr>)
     (demoNpcs ''medium'' ''bot'')
     ([''bot'' \<mapsto> (createNPC ''bot'' ''Bot'' ''medium'')\<lparr>decisionDelay := 4\<rparr>] ''bot'')"
  using dispatcher_frame [OF demo_tick_up] demo_tick_up
  by blast

section \<open>The effective tier\<close>




section \<open>The decision policy proposes safe moves only\<close>

lemma filterSafe_sound:
  "filterSafe W H head gs myId ms = Inr sm \<Longrightarrow> m \<in> set sm \<Longrightarrow>
   isMoveImmediatelySafe W H head m gs myId = Inr True \<and> m \<in> set ms"
proof (induction ms arbitrary: sm)
  case Nil
  then show ?case by simp
next
  case (Cons a ms)
  then show ?case
    by (auto split: sum.splits if_splits)
qed

lemma closestScan_in:
  "fst (closestScan W H head gs target ms (best, md)) = Some m \<Longrightarrow> m \<in> set ms \<or> best = Some m"
proof (induction ms arbitrary: best md)
  case Nil
  then show ?case by simp
next
  case (Cons a ms)
  then show ?case
    by (fastforce simp: Let_def split: if_splits)
qed

lemma survivalScan_in:
  "survivalScan W H head gs myId ms (best, mx) = Inr (Some m, mx') \<Longrightarrow>
   m \<in> set ms \<or> best = Some m"
proof (induction ms arbitrary: best mx)
  case Nil
  then show ?case by simp
next
  case (Cons a ms)
  then show ?case
    by (fastforce simp: Let_def split: sum.splits if_splits)
qed

lemma pickAt_in: "pickAt xs i = Some x \<Longrightarrow> x \<in> set xs"
  by (auto simp: pickAt_def split: if_splits)

lemma foodPathCheck_in: "foodPathCheck W H head gs pl st sm = Inr (Some m) \<Longrightarrow> m \<in> set sm"
  by (auto simp: foodPathCheck_def Let_def split: sum.splits option.splits if_splits)

lemma survivalMode_in: "survivalMode W H head gs pl sm = Inr (Some m) \<Longrightarrow> m \<in> set sm"
  by (auto simp: survivalMode_def split: sum.splits option.splits if_splits prod.splits
      dest: survivalScan_in closestScan_in)

lemma fallbackMove_in:
  "sm \<noteq> [] \<Longrightarrow> fallbackMove W H rnd head gs pl st sm k = (Some m, k') \<Longrightarrow> m \<in> set sm"
  by (auto simp: fallbackMove_def Let_def split: option.splits if_splits dest: closestScan_in)

lemma decide_in_safeMoves:
  assumes "decideNPCMove W H rnd n gs pl k = (Inr (Some d), n', k')"
  shows "\<exists>sm. filterSafe W H (hd (snake pl)) gs (pid pl) possibleMoves = Inr sm \<and> d \<in> set sm"
proof -
  from assms obtain sm where sm: "filterSafe W H (hd (snake pl)) gs (pid pl) possibleMoves = Inr sm"
    and ne: "sm \<noteq> []"
    by (auto simp: decideNPCMove_def Let_def split: if_splits sum.splits)
  have "d \<in> set sm"
    using assms sm ne
    by (auto simp: decideNPCMove_def Let_def
        split: if_splits sum.splits option.splits prod.splits
        dest: pickAt_in foodPathCheck_in survivalMode_in fallbackMove_in)
  with sm show ?thesis by blast
qed

text \<open>
  C10. Every direction that \<open>decideNPCMove\<close> returns is a member of the list of
  safe moves computed for the head, in every branch (error injection, the committed
  food path of either tier, survival mode, tail chase, straight preference and
  hot/cold steering): \<open>isMoveImmediatelySafe\<close> holds of it, so its next cell is
  inside a walled grid and not occupied.
\<close>

theorem decide_move_is_safe:
  assumes "decideNPCMove W H rnd n gs pl k = (Inr (Some d), n', k')"
  shows "(\<exists>sm. filterSafe W H (hd (snake pl)) gs (pid pl) possibleMoves = Inr sm \<and> d \<in> set sm) \<and>
         isMoveImmediatelySafe W H (hd (snake pl)) d gs (pid pl) = Inr True \<and>
         \<not> (wallMode gs \<and> outOfBounds W H (getNextCoord W H (hd (snake pl)) d (wallMode gs))) \<and>
         isOccupied W H (getNextCoord W H (hd (snake pl)) d (wallMode gs)) gs (pid pl) = Inr False"
proof -
  obtain sm where sm: "filterSafe W H (hd (snake pl)) gs (pid pl) possibleMoves = Inr sm" "d \<in> set sm"
    using decide_in_safeMoves [OF assms] by blast
  then have s: "isMoveImmediatelySafe W H (hd (snake pl)) d gs (pid pl) = Inr True"
    using filterSafe_sound by blast
  then have "\<not> (wallMode gs \<and> outOfBounds W H (getNextCoord W H (hd (snake pl)) d (wallMode gs)))"
    and "isOccupied W H (getNextCoord W H (hd (snake pl)) d (wallMode gs)) gs (pid pl) = Inr False"
    by (auto simp: isMoveImmediatelySafe_def Let_def split: if_splits sum.splits)
  with sm s show ?thesis by blast
qed

theorem decide_move_is_safe_witness:
  "decideNPCMove 10 10 (\<lambda>_. 1 / 2) (createNPC ''bot'' ''Bot'' ''medium'') (demoState [(5, 3)]) demoBot 0
     = (Inr (Some Up), (createNPC ''bot'' ''Bot'' ''medium'')\<lparr>decisionDelay := 4\<rparr>, 1) \<and>
   isMoveImmediatelySafe 10 10 (hd (snake demoBot)) Up (demoState [(5, 3)]) (pid demoBot) = Inr True"
  using decide_move_is_safe [OF demo_turn_up] demo_turn_up
  by blast

section \<open>Determinism\<close>









section \<open>The flood fill counts the reachable cells\<close>

lemma freshMoves_subset: "set (freshMoves W H gs p ms V) \<subseteq> set ms"
  by (induction ms arbitrary: V) auto

lemma freshMoves_new:
  "m \<in> set (freshMoves W H gs p ms V) \<Longrightarrow>
   stepTo W H gs p m \<notin> V \<and> \<not> blocked W H gs (stepTo W H gs p m)"
  by (induction ms arbitrary: V) (auto split: if_splits)

lemma freshMoves_distinct: "distinct (map (stepTo W H gs p) (freshMoves W H gs p ms V))"
proof (induction ms arbitrary: V)
  case Nil
  then show ?case by simp
next
  case (Cons a ms)
  have "stepTo W H gs p a \<notin> stepTo W H gs p ` set (freshMoves W H gs p ms (insert (stepTo W H gs p a) V))"
    using freshMoves_new [of _ W H gs p ms "insert (stepTo W H gs p a) V"] by force
  then show ?case
    using Cons.IH by simp
qed

lemma freshMoves_covers:
  "m \<in> set ms \<Longrightarrow> \<not> blocked W H gs (stepTo W H gs p m) \<Longrightarrow>
   stepTo W H gs p m \<in> V \<union> stepTo W H gs p ` set (freshMoves W H gs p ms V)"
proof (induction ms arbitrary: V)
  case Nil
  then show ?case by simp
next
  case (Cons a ms)
  show ?case
  proof (cases "m = a")
    case True
    then show ?thesis using Cons.prems by auto
  next
    case False
    then have "m \<in> set ms" using Cons.prems by simp
    from Cons.IH [OF this Cons.prems(2)] show ?thesis by (auto split: if_splits)
  qed
qed

lemma fillNeighbors_pure:
  "snakesNonEmpty gs \<Longrightarrow>
   fillNeighbors W H gs myId p ms (stack, V) =
     Inr (rev (map (stepTo W H gs p) (freshMoves W H gs p ms V)) @ stack,
          V \<union> stepTo W H gs p ` set (freshMoves W H gs p ms V))"
proof (induction ms arbitrary: stack V)
  case Nil
  then show ?case by simp
next
  case (Cons a ms)
  show ?case
    using Cons.prems Cons.IH [OF Cons.prems]
    by (simp add: isOccupied_blocked stepTo_def Let_def insert_commute)
qed

lemma jsRem_bound: "b \<noteq> 0 \<Longrightarrow> \<bar>jsRem a b\<bar> < \<bar>b\<bar>"
  by (simp add: jsRem_def abs_mult abs_sgn_eq)

lemma free_step_in_box:
  assumes "0 < W" "0 < H" "\<not> blocked W H gs (getNextCoord W H p m (wallMode gs))"
  shows "getNextCoord W H p m (wallMode gs) \<in> {- W..W} \<times> {- H..H}"
proof (cases "wallMode gs")
  case True
  then have "\<not> outOfBounds W H (getNextCoord W H p m (wallMode gs))"
    using assms(3) by (simp add: blocked_def)
  then show ?thesis
    by (cases "getNextCoord W H p m (wallMode gs)") (auto simp: outOfBounds_def)
next
  case False
  obtain x y where xy: "moveDelta p m = (x, y)" by (cases "moveDelta p m")
  have "\<bar>jsRem (x + W) W\<bar> < \<bar>W\<bar>" "\<bar>jsRem (y + H) H\<bar> < \<bar>H\<bar>"
    using assms(1,2) jsRem_bound [of W "x + W"] jsRem_bound [of H "y + H"] by simp_all
  then show ?thesis using False xy assms(1,2) by (auto simp: getNextCoord_def)
qed

lemma reachable_subset_box:
  assumes "0 < W" "0 < H"
  shows "reachable W H gs start \<subseteq> insert start ({- W..W} \<times> {- H..H})"
proof
  fix p assume "p \<in> reachable W H gs start"
  then show "p \<in> insert start ({- W..W} \<times> {- H..H})"
    by (induction rule: reachable.induct) (use free_step_in_box [OF assms] in blast)+
qed

lemma finite_reachable: "0 < W \<Longrightarrow> 0 < H \<Longrightarrow> finite (reachable W H gs start)"
  using reachable_subset_box [of W H gs start]
  by (meson finite_SigmaI finite_atLeastAtMost_int finite_insert finite_subset)

lemma reachable_closed:
  assumes "start \<in> P"
    and "\<And>p m. p \<in> P \<Longrightarrow> \<not> blocked W H gs (getNextCoord W H p m (wallMode gs)) \<Longrightarrow>
           getNextCoord W H p m (wallMode gs) \<in> P"
  shows "reachable W H gs start \<subseteq> P"
proof
  fix p assume "p \<in> reachable W H gs start"
  then show "p \<in> P"
    by (induction rule: reachable.induct) (use assms in blast)+
qed


lemma fillLoop_count:
  "snakesNonEmpty gs \<Longrightarrow> 0 < W \<Longrightarrow> 0 < H \<Longrightarrow> set ms = UNIV \<Longrightarrow>
   V = P \<union> set stack \<Longrightarrow> P \<inter> set stack = {} \<Longrightarrow> distinct stack \<Longrightarrow>
   int (card P) = count \<Longrightarrow> finite P \<Longrightarrow> count < limit \<Longrightarrow>
   V \<subseteq> reachable W H gs start \<Longrightarrow> start \<in> V \<Longrightarrow>
   (\<forall>p \<in> P. \<forall>m. \<not> blocked W H gs (stepTo W H gs p m) \<longrightarrow> stepTo W H gs p m \<in> V) \<Longrightarrow>
   fillLoop W H gs myId limit ms stack V count
     = Inr (min limit (int (card (reachable W H gs start))))"
proof (induction W H gs myId limit ms stack V count arbitrary: P rule: fillLoop.induct)
  case (1 W H gs myId limit moves visited count)
  have vp: "visited = P" using 1(5) by simp
  have st: "start \<in> P" using 1(12) vp by simp
  have cl: "\<And>p m. p \<in> P \<Longrightarrow> \<not> blocked W H gs (getNextCoord W H p m (wallMode gs)) \<Longrightarrow>
           getNextCoord W H p m (wallMode gs) \<in> P"
    using 1(13) vp by (simp add: stepTo_def)
  have "reachable W H gs start \<subseteq> P"
    using st cl by (rule reachable_closed)
  then have "P = reachable W H gs start" using 1(11) vp by blast
  then show ?case using 1(8,10) by simp
next
  case (2 W H gs myId limit moves current stack visited count)
  note wf = 2(2) and Wpos = 2(3) and Hpos = 2(4) and allms = 2(5) and VP = 2(6)
    and disj = 2(7) and dist = 2(8) and card = 2(9) and finP = 2(10) and lt = 2(11)
    and sub = 2(12) and st = 2(13) and closed = 2(14)
  let ?R = "reachable W H gs start"
  have fin: "finite ?R" using Wpos Hpos by (rule finite_reachable)
  have cur: "current \<notin> P" "current \<in> ?R" "current \<notin> set stack"
    using VP disj dist sub by auto
  let ?P = "insert current P"
  have cardP: "int (card ?P) = count + 1"
    using cur(1) card finP by simp
  have "?P \<subseteq> ?R" using VP sub by auto
  then have "card ?P \<le> card ?R" using fin by (rule card_mono [rotated])
  then have le: "count + 1 \<le> int (card ?R)"
    using cardP by linarith
  show ?case
  proof (cases "limit \<le> count + 1")
    case True
    then show ?thesis using le by simp
  next
    case False
    let ?fresh = "freshMoves W H gs current moves visited"
    let ?new = "map (stepTo W H gs current) ?fresh"
    let ?stack = "rev ?new @ stack"
    let ?V = "visited \<union> stepTo W H gs current ` set ?fresh"
    have fn: "fillNeighbors W H gs myId current moves (stack, visited) = Inr (?stack, ?V)"
      using wf by (rule fillNeighbors_pure)
    have newfacts: "q \<notin> visited \<and> \<not> blocked W H gs q \<and> q \<in> ?R" if "q \<in> set ?new" for q
    proof -
      from that obtain m where m: "m \<in> set ?fresh" "q = stepTo W H gs current m" by auto
      from freshMoves_new [OF m(1)] have a: "q \<notin> visited" "\<not> blocked W H gs q"
        using m(2) by simp_all
      have "q \<in> ?R" using reachable.step [OF cur(2), of m] a(2) m(2) by (simp add: stepTo_def)
      with a show ?thesis by simp
    qed
    have setnew: "set ?stack = set ?new \<union> set stack" by simp
    have nv: "set ?new \<inter> visited = {}"
    proof -
      have "\<And>q. q \<in> set ?new \<Longrightarrow> q \<notin> visited" using newfacts by simp
      then show ?thesis by (simp only: disjoint_iff) blast
    qed
    have pv: "?P \<subseteq> visited" and sv: "set stack \<subseteq> visited" using VP by auto
    have i1: "?V = ?P \<union> set ?stack" unfolding setnew using VP by auto
    have disj': "P \<inter> set stack = {}" using disj by simp
    have i2: "?P \<inter> set ?stack = {}" unfolding setnew using nv pv disj' cur(3) by blast
    have dn: "distinct ?new" by (rule freshMoves_distinct)
    have "distinct stack" using dist by simp
    moreover have "set ?new \<inter> set stack = {}" using nv sv by blast
    ultimately have i3: "distinct ?stack"
      using dn by (simp only: distinct_append distinct_rev set_rev)
    have i4: "?V \<subseteq> ?R" using sub newfacts by auto
    have i5: "start \<in> ?V" using st by simp
    have i6: "\<forall>p \<in> ?P. \<forall>m. \<not> blocked W H gs (stepTo W H gs p m) \<longrightarrow> stepTo W H gs p m \<in> ?V"
    proof (intro ballI allI impI)
      fix p m assume p: "p \<in> ?P" and f: "\<not> blocked W H gs (stepTo W H gs p m)"
      show "stepTo W H gs p m \<in> ?V"
      proof (cases "p = current")
        case True
        have "m \<in> set moves" using allms by simp
        from freshMoves_covers [OF this, of W H gs current visited] f True show ?thesis by simp
      next
        case False
        then show ?thesis using p f closed by auto
      qed
    qed
    have finP': "finite ?P" using finP by simp
    have lt': "count + 1 < limit" using False by simp
    have "fillLoop W H gs myId limit moves ?stack ?V (count + 1)
            = Inr (min limit (int (card ?R)))"
      by (rule 2(1) [OF False fn refl wf Wpos Hpos allms i1 i2 i3 cardP finP' lt' i4 i5 i6])
    then show ?thesis using False fn by simp
  qed
qed


lemma demo_fill: "countAccessibleTiles 10 10 (4, 5) (demoState []) ''bot'' 3 = Inr 3"
  by code_simp

text \<open>
  C4. On a grid of positive dimensions whose living snakes are not empty, for every
  start cell and every positive limit, \<open>countAccessibleTiles\<close> returns the minimum of
  the limit and the number of cells reachable from the start cell through cells that
  are not blocked, the start cell counted: never more than the limit, and the exact
  count when that is below the limit. The same value comes out when the loop goes
  through the four directions in any other order.
\<close>

theorem countAccessibleTiles_exact:
  assumes "snakesNonEmpty gs" and "0 < W" and "0 < H" and "0 < limit"
  shows "countAccessibleTiles W H start gs myId limit
           = Inr (min limit (int (card (reachable W H gs start)))) \<and>
         (\<forall>ms. set ms = UNIV \<longrightarrow>
            fillLoop W H gs myId limit ms [start] {start} 0
              = countAccessibleTiles W H start gs myId limit)"
proof -
  have any: "fillLoop W H gs myId limit ms [start] {start} 0
      = Inr (min limit (int (card (reachable W H gs start))))" if "set ms = UNIV" for ms
    using assms(1,2,3) that
    by (rule fillLoop_count [where P = "{}"]) (use assms(4) in \<open>simp_all add: reachable.start\<close>)
  have "set possibleMoves = UNIV"
  proof -
    have "d \<in> set possibleMoves" for d
      by (cases d) (simp_all add: possibleMoves_def)
    then show ?thesis by blast
  qed
  then show ?thesis using any by (simp add: countAccessibleTiles_def)
qed

theorem countAccessibleTiles_exact_witness:
  "snakesNonEmpty (demoState []) \<and> (0::int) < 10 \<and> (0::int) < 3 \<and>
   countAccessibleTiles 10 10 (4, 5) (demoState []) ''bot'' 3 = Inr 3 \<and>
   min 3 (int (card (reachable 10 10 (demoState []) (4, 5)))) = 3 \<and>
   set [Right, Left, Down, Up] = UNIV \<and>
   fillLoop 10 10 (demoState []) ''bot'' 3 [Right, Left, Down, Up] [(4, 5)] {(4, 5)} 0 = Inr 3"
proof -
  have h: "snakesNonEmpty (demoState [])"
    by (simp add: snakesNonEmpty_def demoState_def demoBot_def)
  have u: "set [Right, Left, Down, Up] = UNIV"
  proof -
    have "d \<in> set [Right, Left, Down, Up]" for d
      by (cases d) simp_all
    then show ?thesis by blast
  qed
  have T: "countAccessibleTiles 10 10 (4, 5) (demoState []) ''bot'' 3
           = Inr (min 3 (int (card (reachable 10 10 (demoState []) (4, 5))))) \<and>
         (\<forall>ms. set ms = UNIV \<longrightarrow>
            fillLoop 10 10 (demoState []) ''bot'' 3 ms [(4, 5)] {(4, 5)} 0
              = countAccessibleTiles 10 10 (4, 5) (demoState []) ''bot'' 3)"
    by (rule countAccessibleTiles_exact [OF h]) simp_all
  from T demo_fill have m: "min 3 (int (card (reachable 10 10 (demoState []) (4, 5)))) = 3"
    by simp
  from T u demo_fill
  have f: "fillLoop 10 10 (demoState []) ''bot'' 3 [Right, Left, Down, Up] [(4, 5)] {(4, 5)} 0 = Inr 3"
    by metis
  show ?thesis
    using h u demo_fill m f by (simp del: fillLoop.simps)
qed
section \<open>The order of the walks\<close>

lemma walkEnd_snoc: "walkEnd W H gs p (ds @ [m]) = stepTo W H gs (walkEnd W H gs p ds) m"
  by (induction ds arbitrary: p) simp_all

lemma walkFree_snoc:
  "walkFree W H gs p (ds @ [m]) =
     (walkFree W H gs p ds \<and> \<not> blocked W H gs (stepTo W H gs (walkEnd W H gs p ds) m))"
  by (induction ds arbitrary: p) auto

lemma walkFree_append: "walkFree W H gs p (a @ b) \<Longrightarrow> walkFree W H gs p a"
  by (induction a arbitrary: p) auto

lemma walkCode_Nil: "walkCode [] = 0"
  by (simp add: walkCode_def)

lemma walkCode_snoc: "walkCode (ds @ [m]) = 4 * walkCode ds + moveRank m + 1"
  by (simp add: walkCode_def)

lemma moveRank_le: "moveRank m \<le> 3"
  by (cases m) simp_all

lemma moveRank_inj: "moveRank a = moveRank b \<Longrightarrow> a = b"
  by (cases a; cases b) simp_all

lemma walkCode_bounds:
  "4 ^ length w \<le> 3 * walkCode w + 1 \<and> 3 * walkCode w + 4 \<le> 4 ^ Suc (length w)"
proof (induction w rule: rev_induct)
  case Nil
  then show ?case by (simp add: walkCode_Nil)
next
  case (snoc m w)
  have r: "moveRank m \<le> 3" by (rule moveRank_le)
  define X :: nat where "X = 4 ^ length w"
  define c where "c = walkCode w"
  have a: "X \<le> 3 * c + 1" and b: "3 * c + 4 \<le> 4 * X"
    using snoc by (simp_all add: X_def c_def)
  have "4 * X \<le> 3 * (4 * c + moveRank m + 1) + 1" using a by (simp add: algebra_simps)
  moreover have "3 * (4 * c + moveRank m + 1) + 4 \<le> 4 * (4 * X)" using b r by (simp add: algebra_simps)
  ultimately show ?case by (simp add: walkCode_snoc X_def c_def)
qed

lemma walkCode_length_less:
  assumes "length a < length b"
  shows "walkCode a < walkCode b"
proof -
  have "(4::nat) ^ Suc (length a) \<le> 4 ^ length b"
    using assms by (intro power_increasing) simp_all
  then have "3 * walkCode a + 4 \<le> 3 * walkCode b + 1"
    using walkCode_bounds [of a] walkCode_bounds [of b] by linarith
  then show ?thesis by linarith
qed

lemma walkCode_le_length: "walkCode a \<le> walkCode b \<Longrightarrow> length a \<le> length b"
  using walkCode_length_less [of b a] by (cases "length b < length a") simp_all

lemma walkCode_append_less: "s \<noteq> [] \<Longrightarrow> walkCode u < walkCode (u @ s)"
  by (rule walkCode_length_less) simp

lemma walkCode_Cons: "walkCode (m # w) = (moveRank m + 1) * 4 ^ length w + walkCode w"
proof (induction w rule: rev_induct)
  case Nil
  then show ?case by (simp add: walkCode_def)
next
  case (snoc x w)
  have "walkCode (m # w @ [x]) = walkCode ((m # w) @ [x])" by simp
  also have "\<dots> = 4 * walkCode (m # w) + moveRank x + 1" by (rule walkCode_snoc)
  also have "\<dots> = 4 * ((moveRank m + 1) * 4 ^ length w + walkCode w) + moveRank x + 1"
    using snoc by simp
  also have "\<dots> = (moveRank m + 1) * 4 ^ length (w @ [x]) + walkCode (w @ [x])"
    by (simp add: walkCode_snoc algebra_simps)
  finally show ?case .
qed

lemma walkCode_lex:
  "length a = length b \<Longrightarrow> walkCode a \<le> walkCode b \<Longrightarrow> lexLe a b"
proof (induction a b rule: list_induct2)
  case Nil
  then show ?case by simp
next
  case (Cons x xs y ys)
  define X :: nat where "X = 4 ^ length xs"
  have bx: "X \<le> 3 * walkCode xs + 1" "3 * walkCode xs + 4 \<le> 4 * X"
    using walkCode_bounds [of xs] by (simp_all add: X_def)
  have by': "X \<le> 3 * walkCode ys + 1" "3 * walkCode ys + 4 \<le> 4 * X"
    using walkCode_bounds [of ys] Cons.hyps by (simp_all add: X_def)
  have le: "(moveRank x + 1) * X + walkCode xs \<le> (moveRank y + 1) * X + walkCode ys"
    using Cons.prems Cons.hyps by (simp add: walkCode_Cons X_def)
  show ?case
  proof (cases "moveRank x < moveRank y")
    case True
    then show ?thesis by simp
  next
    case False
    have "\<not> moveRank y < moveRank x"
    proof
      assume "moveRank y < moveRank x"
      then have "moveRank y + 2 \<le> moveRank x + 1" by simp
      then have "(moveRank y + 2) * X \<le> (moveRank x + 1) * X" by (rule mult_le_mono1)
      then have "(moveRank y + 1) * X + X \<le> (moveRank x + 1) * X" by (simp add: algebra_simps)
      with le bx by' show False by linarith
    qed
    with False have eq: "moveRank x = moveRank y" by simp
    then have xy: "x = y" by (rule moveRank_inj)
    have "walkCode xs \<le> walkCode ys" using le eq by simp
    then have "lexLe xs ys" by (rule Cons.IH)
    with xy show ?thesis by simp
  qed
qed

section \<open>The loops of the search, without the exception\<close>

lemma bfsNeighbors_pure:
  "snakesNonEmpty gs \<Longrightarrow>
   bfsNeighbors W H gs myId p fm d ms (q, V) =
     Inr (q @ map (\<lambda>m. (stepTo W H gs p m, fm, d + 1)) (freshMoves W H gs p ms V),
          V \<union> stepTo W H gs p ` set (freshMoves W H gs p ms V))"
proof (induction ms arbitrary: q V)
  case Nil
  then show ?case by simp
next
  case (Cons a ms)
  show ?case
    using Cons.prems Cons.IH [OF Cons.prems]
    by (simp add: isOccupied_blocked stepTo_def Let_def insert_commute)
qed

lemma bfsInit_pure:
  "snakesNonEmpty gs \<Longrightarrow>
   bfsInit W H start gs myId ms (q, V) =
     Inr (q @ map (\<lambda>m. (stepTo W H gs start m, m, 1))
                (filter (\<lambda>m. \<not> blocked W H gs (stepTo W H gs start m)) ms),
          V \<union> stepTo W H gs start ` set (filter (\<lambda>m. \<not> blocked W H gs (stepTo W H gs start m)) ms))"
proof (induction ms arbitrary: q V)
  case Nil
  then show ?case by simp
next
  case (Cons a ms)
  show ?case
    using Cons.prems Cons.IH [OF Cons.prems]
    by (simp add: isOccupied_blocked stepTo_def Let_def insert_commute)
qed

lemma freshMoves_sorted:
  "sorted_wrt (\<lambda>a b. moveRank a < moveRank b) ms \<Longrightarrow>
   sorted_wrt (\<lambda>a b. moveRank a < moveRank b) (freshMoves W H gs p ms V)"
proof (induction ms arbitrary: V)
  case Nil
  then show ?case by simp
next
  case (Cons a ms)
  have "\<forall>x \<in> set (freshMoves W H gs p ms V'). moveRank a < moveRank x" for V'
    using Cons.prems freshMoves_subset [of W H gs p ms V'] by auto
  then show ?case using Cons by simp
qed

lemma freshMoves_first:
  "sorted_wrt (\<lambda>a b. moveRank a < moveRank b) ms \<Longrightarrow> m \<in> set ms \<Longrightarrow>
   \<not> blocked W H gs (stepTo W H gs p m) \<Longrightarrow> stepTo W H gs p m \<notin> V \<Longrightarrow>
   \<exists>m' \<in> set (freshMoves W H gs p ms V).
      stepTo W H gs p m' = stepTo W H gs p m \<and> moveRank m' \<le> moveRank m"
proof (induction ms arbitrary: V)
  case Nil
  then show ?case by simp
next
  case (Cons a ms)
  have srt: "sorted_wrt (\<lambda>a b. moveRank a < moveRank b) ms"
    and lt: "\<forall>x \<in> set ms. moveRank a < moveRank x"
    using Cons.prems(1) by simp_all
  show ?case
  proof (cases "stepTo W H gs p a \<notin> V \<and> \<not> blocked W H gs (stepTo W H gs p a)")
    case acc: True
    show ?thesis
    proof (cases "stepTo W H gs p m = stepTo W H gs p a")
      case True
      have "moveRank a \<le> moveRank m"
        using Cons.prems(2) lt by auto
      then show ?thesis using acc True by auto
    next
      case False
      then have "m \<in> set ms" using Cons.prems(2) by auto
      moreover have "stepTo W H gs p m \<notin> insert (stepTo W H gs p a) V"
        using False Cons.prems(4) by simp
      ultimately obtain m' where "m' \<in> set (freshMoves W H gs p ms (insert (stepTo W H gs p a) V))"
        "stepTo W H gs p m' = stepTo W H gs p m" "moveRank m' \<le> moveRank m"
        using Cons.IH [OF srt _ Cons.prems(3)] by blast
      then show ?thesis using acc by auto
    qed
  next
    case rej: False
    then have "m \<noteq> a" using Cons.prems(3,4) by auto
    then have "m \<in> set ms" using Cons.prems(2) by auto
    from Cons.IH [OF srt this Cons.prems(3,4)] show ?thesis using rej by auto
  qed
qed

section \<open>The invariant of the search\<close>

lemma bfsInv_walks:
  "bfsInv W H gs start P ws V \<Longrightarrow> w \<in> P \<union> set ws \<Longrightarrow>
   w \<noteq> [] \<and> walkFree W H gs start w \<and> length w \<le> 51"
  by (simp add: bfsInv_def)

lemma bfsInv_sorted:
  "bfsInv W H gs start P ws V \<Longrightarrow> sorted_wrt (\<lambda>a b. walkCode a < walkCode b) ws"
  by (simp add: bfsInv_def)

lemma bfsInv_before:
  "bfsInv W H gs start P ws V \<Longrightarrow> u \<in> P \<Longrightarrow> w \<in> set ws \<Longrightarrow> walkCode u < walkCode w"
  by (simp add: bfsInv_def)

lemma bfsInv_visited:
  "bfsInv W H gs start P ws V \<Longrightarrow> V = walkEnd W H gs start ` (P \<union> set ws)"
  by (simp add: bfsInv_def)

lemma bfsInv_nofood:
  "bfsInv W H gs start P ws V \<Longrightarrow> u \<in> P \<Longrightarrow> walkEnd W H gs start u \<notin> set (food gs)"
  by (simp add: bfsInv_def)

lemma bfsInv_closed:
  "bfsInv W H gs start P ws V \<Longrightarrow> u \<in> P \<Longrightarrow> length u \<le> 50 \<Longrightarrow>
   \<not> blocked W H gs (stepTo W H gs (walkEnd W H gs start u) m) \<Longrightarrow>
   \<exists>e \<in> P \<union> set ws.
      walkEnd W H gs start e = stepTo W H gs (walkEnd W H gs start u) m \<and>
      walkCode e \<le> walkCode (u @ [m])"
  by (simp add: bfsInv_def)

lemma bfsInv_first:
  "bfsInv W H gs start P ws V \<Longrightarrow> \<not> blocked W H gs (stepTo W H gs start m) \<Longrightarrow>
   [m] \<in> P \<union> set ws"
  by (simp add: bfsInv_def)

lemma bfsInv_bound:
  "bfsInv W H gs start P ws V \<Longrightarrow> ws \<noteq> [] \<Longrightarrow> e \<in> P \<union> set ws \<Longrightarrow>
   walkCode e \<le> 4 * walkCode (hd ws)"
  by (simp add: bfsInv_def)

lemma bfs_dominated:
  assumes inv: "bfsInv W H gs start P ws V"
  shows "w \<noteq> [] \<Longrightarrow> walkFree W H gs start w \<Longrightarrow> length w \<le> 51 \<Longrightarrow>
     (\<exists>e \<in> P \<union> set ws.
         walkEnd W H gs start e = walkEnd W H gs start w \<and> walkCode e \<le> walkCode w) \<or>
     (\<exists>u \<in> set ws. \<exists>u' s.
         w = u' @ s \<and> s \<noteq> [] \<and>
         walkEnd W H gs start u = walkEnd W H gs start u' \<and> walkCode u \<le> walkCode u')"
proof (induction w rule: rev_induct)
  case Nil
  then show ?case by simp
next
  case (snoc m v)
  have free_m: "\<not> blocked W H gs (stepTo W H gs (walkEnd W H gs start v) m)"
    and free_v: "walkFree W H gs start v"
    using snoc.prems(2) by (simp_all add: walkFree_snoc)
  show ?case
  proof (cases "v = []")
    case True
    then have "\<not> blocked W H gs (stepTo W H gs start m)" using free_m by simp
    then have "[m] \<in> P \<union> set ws" using inv by (rule bfsInv_first [rotated])
    then have "\<exists>e \<in> P \<union> set ws.
         walkEnd W H gs start e = walkEnd W H gs start (v @ [m]) \<and> walkCode e \<le> walkCode (v @ [m])"
      using True by (intro bexI [of _ "[m]"]) simp_all
    then show ?thesis by (rule disjI1)
  next
    case False
    have lv: "length v \<le> 50" using snoc.prems(3) by simp
    then have lv': "length v \<le> 51" by simp
    from snoc.IH [OF False free_v lv'] show ?thesis
    proof (elim disjE bexE exE conjE)
      fix e assume e: "e \<in> P \<union> set ws" "walkEnd W H gs start e = walkEnd W H gs start v"
        "walkCode e \<le> walkCode v"
      show ?thesis
      proof (cases "e \<in> set ws")
        case True
        have "v @ [m] = v @ [m] \<and> [m] \<noteq> [] \<and>
            walkEnd W H gs start e = walkEnd W H gs start v \<and> walkCode e \<le> walkCode v"
          using e by simp
        then have "\<exists>u' s. v @ [m] = u' @ s \<and> s \<noteq> [] \<and>
            walkEnd W H gs start e = walkEnd W H gs start u' \<and> walkCode e \<le> walkCode u'"
          by blast
        with True show ?thesis by blast
      next
        case False
        then have eP: "e \<in> P" using e(1) by simp
        have le: "length e \<le> 50" using walkCode_le_length [OF e(3)] lv by simp
        have fm: "\<not> blocked W H gs (stepTo W H gs (walkEnd W H gs start e) m)"
          using free_m e(2) by simp
        from bfsInv_closed [OF inv eP le fm] obtain e' where e': "e' \<in> P \<union> set ws"
          "walkEnd W H gs start e' = stepTo W H gs (walkEnd W H gs start e) m"
          "walkCode e' \<le> walkCode (e @ [m])" by blast
        have "walkCode (e @ [m]) \<le> walkCode (v @ [m])"
          using e(3) by (simp add: walkCode_snoc)
        then have "walkCode e' \<le> walkCode (v @ [m])" using e'(3) by simp
        moreover have "walkEnd W H gs start e' = walkEnd W H gs start (v @ [m])"
          using e'(2) e(2) by (simp add: walkEnd_snoc)
        ultimately show ?thesis using e'(1) by blast
      qed
    next
      fix u u' s assume u: "u \<in> set ws" "v = u' @ s" "s \<noteq> []"
        "walkEnd W H gs start u = walkEnd W H gs start u'" "walkCode u \<le> walkCode u'"
      have "v @ [m] = u' @ (s @ [m]) \<and> s @ [m] \<noteq> [] \<and>
            walkEnd W H gs start u = walkEnd W H gs start u' \<and> walkCode u \<le> walkCode u'"
        using u by simp
      then have "\<exists>u'' s'. v @ [m] = u'' @ s' \<and> s' \<noteq> [] \<and>
            walkEnd W H gs start u = walkEnd W H gs start u'' \<and> walkCode u \<le> walkCode u''"
        by blast
      with u(1) show ?thesis by blast
    qed
  qed
qed

lemma sorted_head_least:
  "sorted_wrt (\<lambda>a b. walkCode a < walkCode b) (w1 # ws) \<Longrightarrow> w \<in> set (w1 # ws) \<Longrightarrow>
   walkCode w1 \<le> walkCode w"
  by auto

lemma bfs_front_least:
  assumes inv: "bfsInv W H gs start P (w1 # ws) V" and fw: "foodWalk W H gs start ds"
  shows "walkCode w1 \<le> walkCode ds"
proof (cases "length ds \<le> 51")
  case False
  have "length w1 \<le> 51" using bfsInv_walks [OF inv, of w1] by simp
  then have "length w1 < length ds" using False by simp
  then show ?thesis using walkCode_length_less [of w1 ds] by simp
next
  case True
  have ne: "ds \<noteq> []" and fr: "walkFree W H gs start ds"
    and fd: "walkEnd W H gs start ds \<in> set (food gs)"
    using fw by (simp_all add: foodWalk_def)
  have srt: "sorted_wrt (\<lambda>a b. walkCode a < walkCode b) (w1 # ws)"
    using inv by (rule bfsInv_sorted)
  from bfs_dominated [OF inv ne fr True] show ?thesis
  proof (elim disjE bexE exE conjE)
    fix e assume e: "e \<in> P \<union> set (w1 # ws)"
      "walkEnd W H gs start e = walkEnd W H gs start ds" "walkCode e \<le> walkCode ds"
    have "e \<notin> P" using bfsInv_nofood [OF inv, of e] e(2) fd by auto
    then have "e \<in> set (w1 # ws)" using e(1) by simp
    then have "walkCode w1 \<le> walkCode e" using srt by (rule sorted_head_least [rotated])
    then show ?thesis using e(3) by simp
  next
    fix u u' s assume u: "u \<in> set (w1 # ws)" "ds = u' @ s" "s \<noteq> []" "walkCode u \<le> walkCode u'"
    have "walkCode w1 \<le> walkCode u" using srt u(1) by (rule sorted_head_least)
    moreover have "walkCode u' < walkCode ds" using u(2,3) walkCode_append_less by simp
    ultimately show ?thesis using u(4) by simp
  qed
qed

lemma bfsInvI:
  assumes "\<And>w. w \<in> P \<union> set ws \<Longrightarrow> w \<noteq> [] \<and> walkFree W H gs start w \<and> length w \<le> 51"
    and "sorted_wrt (\<lambda>a b. walkCode a < walkCode b) ws"
    and "\<And>u w. u \<in> P \<Longrightarrow> w \<in> set ws \<Longrightarrow> walkCode u < walkCode w"
    and "V = walkEnd W H gs start ` (P \<union> set ws)"
    and "\<And>u. u \<in> P \<Longrightarrow> walkEnd W H gs start u \<notin> set (food gs)"
    and "\<And>u m. u \<in> P \<Longrightarrow> length u \<le> 50 \<Longrightarrow>
           \<not> blocked W H gs (stepTo W H gs (walkEnd W H gs start u) m) \<Longrightarrow>
           \<exists>e \<in> P \<union> set ws.
              walkEnd W H gs start e = stepTo W H gs (walkEnd W H gs start u) m \<and>
              walkCode e \<le> walkCode (u @ [m])"
    and "\<And>m. \<not> blocked W H gs (stepTo W H gs start m) \<Longrightarrow> [m] \<in> P \<union> set ws"
    and "\<And>e. ws \<noteq> [] \<Longrightarrow> e \<in> P \<union> set ws \<Longrightarrow> walkCode e \<le> 4 * walkCode (hd ws)"
  shows "bfsInv W H gs start P ws V"
  unfolding bfsInv_def
proof (intro conjI)
  show "\<forall>w \<in> P \<union> set ws. w \<noteq> [] \<and> walkFree W H gs start w \<and> length w \<le> 51"
    using assms(1) by blast
  show "sorted_wrt (\<lambda>a b. walkCode a < walkCode b) ws" by (rule assms(2))
  show "\<forall>u \<in> P. \<forall>w \<in> set ws. walkCode u < walkCode w" using assms(3) by blast
  show "V = walkEnd W H gs start ` (P \<union> set ws)" by (rule assms(4))
  show "\<forall>u \<in> P. walkEnd W H gs start u \<notin> set (food gs)" using assms(5) by blast
  show "\<forall>u \<in> P. length u \<le> 50 \<longrightarrow>
         (\<forall>m. \<not> blocked W H gs (stepTo W H gs (walkEnd W H gs start u) m) \<longrightarrow>
            (\<exists>e \<in> P \<union> set ws.
               walkEnd W H gs start e = stepTo W H gs (walkEnd W H gs start u) m \<and>
               walkCode e \<le> walkCode (u @ [m])))"
    using assms(6) by (intro ballI impI allI)
  show "\<forall>m. \<not> blocked W H gs (stepTo W H gs start m) \<longrightarrow> [m] \<in> P \<union> set ws"
    using assms(7) by (intro allI impI)
  show "ws \<noteq> [] \<longrightarrow> (\<forall>e \<in> P \<union> set ws. walkCode e \<le> 4 * walkCode (hd ws))"
    using assms(8) by (intro ballI impI)
qed

lemma bfsInv_drop:
  assumes inv: "bfsInv W H gs start P (w1 # ws) V"
    and nf: "walkEnd W H gs start w1 \<notin> set (food gs)"
    and long: "50 < length w1"
  shows "bfsInv W H gs start (insert w1 P) ws V"
proof (rule bfsInvI)
  have srt: "sorted_wrt (\<lambda>a b. walkCode a < walkCode b) (w1 # ws)"
    using inv by (rule bfsInv_sorted)
  have same: "insert w1 P \<union> set ws = P \<union> set (w1 # ws)" by simp
  show "w \<noteq> [] \<and> walkFree W H gs start w \<and> length w \<le> 51" if "w \<in> insert w1 P \<union> set ws" for w
    using bfsInv_walks [OF inv, of w] that by simp
  show "sorted_wrt (\<lambda>a b. walkCode a < walkCode b) ws" using srt by simp
  show "walkCode u < walkCode w" if "u \<in> insert w1 P" "w \<in> set ws" for u w
  proof (cases "u = w1")
    case True
    then show ?thesis using srt that(2) by simp
  next
    case False
    then show ?thesis using bfsInv_before [OF inv, of u w] that by simp
  qed
  show "V = walkEnd W H gs start ` (insert w1 P \<union> set ws)"
    using bfsInv_visited [OF inv] by (simp only: same)
  show "walkEnd W H gs start u \<notin> set (food gs)" if "u \<in> insert w1 P" for u
    using that nf bfsInv_nofood [OF inv, of u] by auto
  show "\<exists>e \<in> insert w1 P \<union> set ws.
              walkEnd W H gs start e = stepTo W H gs (walkEnd W H gs start u) m \<and>
              walkCode e \<le> walkCode (u @ [m])"
    if "u \<in> insert w1 P" "length u \<le> 50"
      "\<not> blocked W H gs (stepTo W H gs (walkEnd W H gs start u) m)" for u m
  proof -
    have "u \<in> P" using that(1,2) long by auto
    from bfsInv_closed [OF inv this that(2,3)] show ?thesis by (simp only: same)
  qed
  show "[m] \<in> insert w1 P \<union> set ws" if "\<not> blocked W H gs (stepTo W H gs start m)" for m
    using bfsInv_first [OF inv that] by (simp only: same)
  show "walkCode e \<le> 4 * walkCode (hd ws)" if "ws \<noteq> []" "e \<in> insert w1 P \<union> set ws" for e
  proof -
    have "e \<in> P \<union> set (w1 # ws)" using that(2) by simp
    then have "walkCode e \<le> 4 * walkCode w1" using bfsInv_bound [OF inv, of e] by simp
    moreover have "walkCode w1 < walkCode (hd ws)"
      using srt that(1) by (cases ws) simp_all
    ultimately show ?thesis by simp
  qed
qed

lemma possibleMoves_sorted: "sorted_wrt (\<lambda>a b. moveRank a < moveRank b) possibleMoves"
  by (simp add: possibleMoves_def)

lemma possibleMoves_all: "m \<in> set possibleMoves"
  by (cases m) (simp_all add: possibleMoves_def)

lemma bfsInv_expand:
  assumes inv: "bfsInv W H gs start P (w1 # ws) V"
    and nf: "walkEnd W H gs start w1 \<notin> set (food gs)"
    and short: "length w1 \<le> 50"
  shows "bfsInv W H gs start (insert w1 P)
           (ws @ map (\<lambda>m. w1 @ [m]) (freshMoves W H gs (walkEnd W H gs start w1) possibleMoves V))
           (V \<union> stepTo W H gs (walkEnd W H gs start w1) `
                 set (freshMoves W H gs (walkEnd W H gs start w1) possibleMoves V))"
proof -
  define p where "p = walkEnd W H gs start w1"
  define fresh where "fresh = freshMoves W H gs p possibleMoves V"
  define new where "new = map (\<lambda>m. w1 @ [m]) fresh"
  define c1 where "c1 = walkCode w1"
  have srt: "sorted_wrt (\<lambda>a b. walkCode a < walkCode b) (w1 # ws)"
    using inv by (rule bfsInv_sorted)
  have w1: "w1 \<noteq> []" "walkFree W H gs start w1"
    using bfsInv_walks [OF inv, of w1] by simp_all
  have old: "walkCode e \<le> 4 * c1" if "e \<in> P \<union> set (w1 # ws)" for e
    using bfsInv_bound [OF inv _ that] by (simp add: c1_def)
  have newcode: "walkCode (w1 @ [m]) = 4 * c1 + moveRank m + 1" for m
    by (simp add: walkCode_snoc c1_def)
  have freshD: "stepTo W H gs p m \<notin> V \<and> \<not> blocked W H gs (stepTo W H gs p m)"
    if "m \<in> set fresh" for m
    using that unfolding fresh_def by (rule freshMoves_new)
  have fsorted: "sorted_wrt (\<lambda>a b. moveRank a < moveRank b) fresh"
    unfolding fresh_def using possibleMoves_sorted by (rule freshMoves_sorted)
  have newD: "\<exists>m \<in> set fresh. w = w1 @ [m]" if "w \<in> set new" for w
    using that by (auto simp: new_def)
  have subset: "P \<union> set (w1 # ws) \<subseteq> insert w1 P \<union> set (ws @ new)" by auto
  have before: "walkCode u < walkCode w" if "u \<in> insert w1 P" "w \<in> set (ws @ new)" for u w
  proof (cases "w \<in> set ws")
    case True
    show ?thesis
    proof (cases "u = w1")
      case True
      then show ?thesis using srt \<open>w \<in> set ws\<close> by simp
    next
      case False
      then show ?thesis using bfsInv_before [OF inv, of u w] that(1) True by simp
    qed
  next
    case False
    then have "w \<in> set new" using that(2) by simp
    then obtain m where m: "w = w1 @ [m]" using newD by blast
    have "u \<in> P \<union> set (w1 # ws)" using that(1) by auto
    then have "walkCode u \<le> 4 * c1" by (rule old)
    then show ?thesis using m newcode [of m] by simp
  qed
  have "bfsInv W H gs start (insert w1 P) (ws @ new) (V \<union> stepTo W H gs p ` set fresh)"
  proof (rule bfsInvI)
    show "w \<noteq> [] \<and> walkFree W H gs start w \<and> length w \<le> 51"
      if "w \<in> insert w1 P \<union> set (ws @ new)" for w
    proof (cases "w \<in> set new")
      case True
      then obtain m where m: "m \<in> set fresh" "w = w1 @ [m]" using newD by blast
      have "walkFree W H gs start (w1 @ [m])"
        using w1(2) freshD [OF m(1)] by (simp add: walkFree_snoc p_def)
      then show ?thesis using m(2) short by simp
    next
      case False
      then have "w \<in> P \<union> set (w1 # ws)" using that by auto
      then show ?thesis by (rule bfsInv_walks [OF inv])
    qed
    show "sorted_wrt (\<lambda>a b. walkCode a < walkCode b) (ws @ new)"
    proof -
      have a: "sorted_wrt (\<lambda>a b. walkCode a < walkCode b) ws" using srt by simp
      have "sorted_wrt (\<lambda>a b. walkCode (w1 @ [a]) < walkCode (w1 @ [b])) fresh"
        using fsorted by (rule sorted_wrt_mono_rel [rotated]) (simp add: newcode)
      then have b: "sorted_wrt (\<lambda>a b. walkCode a < walkCode b) new"
        by (simp add: new_def sorted_wrt_map)
      have c: "\<forall>x \<in> set ws. \<forall>y \<in> set new. walkCode x < walkCode y"
      proof (intro ballI)
        fix x y assume x: "x \<in> set ws" and y: "y \<in> set new"
        obtain m where m: "y = w1 @ [m]" using newD [OF y] by blast
        have "walkCode x \<le> 4 * c1" using x by (intro old) simp
        then show "walkCode x < walkCode y" using m newcode [of m] by simp
      qed
      show ?thesis using a b c by (simp add: sorted_wrt_append)
    qed
    show "walkCode u < walkCode w" if "u \<in> insert w1 P" "w \<in> set (ws @ new)" for u w
      using that by (rule before)
    show "V \<union> stepTo W H gs p ` set fresh = walkEnd W H gs start ` (insert w1 P \<union> set (ws @ new))"
    proof -
      have "walkEnd W H gs start ` set new = stepTo W H gs p ` set fresh"
        by (simp add: new_def image_image walkEnd_snoc p_def)
      moreover have "V = walkEnd W H gs start ` (P \<union> set (w1 # ws))"
        using inv by (rule bfsInv_visited)
      moreover have "insert w1 P \<union> set (ws @ new) = (P \<union> set (w1 # ws)) \<union> set new" by auto
      ultimately show ?thesis by (simp only: image_Un)
    qed
    show "walkEnd W H gs start u \<notin> set (food gs)" if "u \<in> insert w1 P" for u
      using that nf bfsInv_nofood [OF inv, of u] by auto
    show "\<exists>e \<in> insert w1 P \<union> set (ws @ new).
              walkEnd W H gs start e = stepTo W H gs (walkEnd W H gs start u) m \<and>
              walkCode e \<le> walkCode (u @ [m])"
      if u: "u \<in> insert w1 P" "length u \<le> 50"
        and fr: "\<not> blocked W H gs (stepTo W H gs (walkEnd W H gs start u) m)" for u m
    proof (cases "u = w1")
      case False
      then have "u \<in> P" using u(1) by simp
      from bfsInv_closed [OF inv this u(2) fr] subset show ?thesis by blast
    next
      case True
      have fr': "\<not> blocked W H gs (stepTo W H gs p m)" using fr True by (simp add: p_def)
      show ?thesis
      proof (cases "stepTo W H gs p m \<in> V")
        case True
        then have "stepTo W H gs p m \<in> walkEnd W H gs start ` (P \<union> set (w1 # ws))"
          using bfsInv_visited [OF inv] by simp
        then obtain e where e: "e \<in> P \<union> set (w1 # ws)" "walkEnd W H gs start e = stepTo W H gs p m"
          by (elim imageE) simp
        have "walkCode e \<le> walkCode (w1 @ [m])" using old [OF e(1)] newcode [of m] by simp
        then show ?thesis using e subset \<open>u = w1\<close> by (auto simp only: p_def)
      next
        case False
        from freshMoves_first [OF possibleMoves_sorted possibleMoves_all fr' False]
        obtain m' where m': "m' \<in> set fresh" "stepTo W H gs p m' = stepTo W H gs p m"
          "moveRank m' \<le> moveRank m" unfolding fresh_def by blast
        have a: "w1 @ [m'] \<in> insert w1 P \<union> set (ws @ new)" using m'(1) by (simp add: new_def)
        have b: "walkEnd W H gs start (w1 @ [m']) = stepTo W H gs (walkEnd W H gs start u) m"
          using m'(2) \<open>u = w1\<close> by (simp add: walkEnd_snoc p_def)
        have c: "walkCode (w1 @ [m']) \<le> walkCode (u @ [m])"
          using m'(3) \<open>u = w1\<close> by (simp add: newcode)
        from a b c show ?thesis by blast
      qed
    qed
    show "[m] \<in> insert w1 P \<union> set (ws @ new)" if "\<not> blocked W H gs (stepTo W H gs start m)" for m
      using bfsInv_first [OF inv that] subset by blast
    show "walkCode e \<le> 4 * walkCode (hd (ws @ new))"
      if ne: "ws @ new \<noteq> []" and e: "e \<in> insert w1 P \<union> set (ws @ new)" for e
    proof -
      have "hd (ws @ new) \<in> set (ws @ new)" using ne by (rule hd_in_set)
      then have "walkCode w1 < walkCode (hd (ws @ new))" by (intro before) simp
      then have h: "c1 + 1 \<le> walkCode (hd (ws @ new))" by (simp add: c1_def)
      show ?thesis
      proof (cases "e \<in> set new")
        case True
        then obtain m where "e = w1 @ [m]" using newD by blast
        then have "walkCode e \<le> 4 * c1 + 4" using newcode [of m] moveRank_le [of m] by simp
        then show ?thesis using h by simp
      next
        case False
        then have "e \<in> P \<union> set (w1 # ws)" using e by auto
        then have "walkCode e \<le> 4 * c1" by (rule old)
        then show ?thesis using h by simp
      qed
    qed
  qed
  then show ?thesis by (simp only: new_def fresh_def p_def)
qed

lemma bfsInv_start:
  "bfsInv W H gs start {}
     (map (\<lambda>m. [m]) (filter (\<lambda>m. \<not> blocked W H gs (stepTo W H gs start m)) possibleMoves))
     (stepTo W H gs start ` set (filter (\<lambda>m. \<not> blocked W H gs (stepTo W H gs start m)) possibleMoves))"
proof -
  define fl where "fl = filter (\<lambda>m. \<not> blocked W H gs (stepTo W H gs start m)) possibleMoves"
  have code1: "walkCode [m] = moveRank m + 1" for m
    using walkCode_snoc [of "[]" m] by (simp add: walkCode_Nil)
  have flD: "\<not> blocked W H gs (stepTo W H gs start m)" if "m \<in> set fl" for m
    using that by (simp add: fl_def)
  have wsD: "\<exists>m \<in> set fl. w = [m]" if "w \<in> set (map (\<lambda>m. [m]) fl)" for w
    using that by auto
  have "bfsInv W H gs start {} (map (\<lambda>m. [m]) fl) (stepTo W H gs start ` set fl)"
  proof (rule bfsInvI)
    show "w \<noteq> [] \<and> walkFree W H gs start w \<and> length w \<le> 51"
      if w: "w \<in> {} \<union> set (map (\<lambda>m. [m]) fl)" for w
    proof -
      obtain m where "m \<in> set fl" "w = [m]" using w wsD by auto
      then show ?thesis using flD by simp
    qed
    show "sorted_wrt (\<lambda>a b. walkCode a < walkCode b) (map (\<lambda>m. [m]) fl)"
    proof -
      have "sorted_wrt (\<lambda>a b. moveRank a < moveRank b) fl"
        unfolding fl_def using possibleMoves_sorted by (rule sorted_wrt_filter)
      then have "sorted_wrt (\<lambda>a b. walkCode [a] < walkCode [b]) fl"
        by (rule sorted_wrt_mono_rel [rotated]) (simp add: code1)
      then show ?thesis by (simp add: sorted_wrt_map)
    qed
    show "walkCode u < walkCode w" if "u \<in> {}" for u w :: "direction list"
      using that by simp
    show "stepTo W H gs start ` set fl = walkEnd W H gs start ` ({} \<union> set (map (\<lambda>m. [m]) fl))"
      by (simp add: image_image)
    show "walkEnd W H gs start u \<notin> set (food gs)" if "u \<in> {}" for u
      using that by simp
    show "\<exists>e \<in> {} \<union> set (map (\<lambda>m. [m]) fl).
              walkEnd W H gs start e = stepTo W H gs (walkEnd W H gs start u) m \<and>
              walkCode e \<le> walkCode (u @ [m])"
      if "u \<in> {}" for u m
      using that by simp
    show "[m] \<in> {} \<union> set (map (\<lambda>m. [m]) fl)" if "\<not> blocked W H gs (stepTo W H gs start m)" for m
      using that possibleMoves_all [of m] by (simp add: fl_def)
    show "walkCode e \<le> 4 * walkCode (hd (map (\<lambda>m. [m]) fl))"
      if ne: "map (\<lambda>m. [m]) fl \<noteq> []" and e: "e \<in> {} \<union> set (map (\<lambda>m. [m]) fl)" for e
    proof -
      obtain m where m: "e = [m]" using e wsD by auto
      have "hd (map (\<lambda>m. [m]) fl) \<in> set (map (\<lambda>m. [m]) fl)" using ne by (rule hd_in_set)
      then obtain m' where "hd (map (\<lambda>m. [m]) fl) = [m']" using wsD by blast
      then have "1 \<le> walkCode (hd (map (\<lambda>m. [m]) fl))" by (simp add: code1)
      moreover have "walkCode e \<le> 4" using m moveRank_le [of m] by (simp add: code1)
      ultimately show ?thesis by simp
    qed
  qed
  then show ?thesis by (simp only: fl_def)
qed

lemma entryOf_snoc:
  "w \<noteq> [] \<Longrightarrow> entryOf W H gs start w = (p, fm, d) \<Longrightarrow>
   entryOf W H gs start (w @ [m]) = (stepTo W H gs p m, fm, d + 1)"
  by (auto simp: entryOf_def walkEnd_snoc)

lemma bfsLoop_post:
  "snakesNonEmpty gs \<Longrightarrow> bfsInv W H gs start P ws V \<Longrightarrow>
   q = map (entryOf W H gs start) ws \<Longrightarrow>
   bfsPost W H gs start (bfsLoop W H gs myId q V)"
proof (induction W H gs myId q V arbitrary: P ws rule: bfsLoop.induct)
  case (1 W H gs myId visited)
  then have ws: "ws = []" by simp
  have "\<not> (\<exists>ds. foodWalk W H gs start ds \<and> length ds \<le> 51)"
  proof
    assume "\<exists>ds. foodWalk W H gs start ds \<and> length ds \<le> 51"
    then obtain ds where ds: "ds \<noteq> []" "walkFree W H gs start ds"
      "walkEnd W H gs start ds \<in> set (food gs)" "length ds \<le> 51"
      by (auto simp: foodWalk_def)
    from bfs_dominated [OF 1(2) ds(1,2,4)] ws
    obtain e where "e \<in> P" "walkEnd W H gs start e = walkEnd W H gs start ds" by auto
    then show False using bfsInv_nofood [OF 1(2), of e] ds(3) by simp
  qed
  then show ?case by (simp add: bfsPost_def)
next
  case (2 W H gs myId p firstMove dst queue visited)
  note wf = 2(3) and inv = 2(4) and qeq = 2(5)
  from qeq obtain w1 ws' where ws: "ws = w1 # ws'"
    and ent: "entryOf W H gs start w1 = (p, firstMove, dst)"
    and queue: "queue = map (entryOf W H gs start) ws'"
    by (cases ws) auto
  have inv1: "bfsInv W H gs start P (w1 # ws') visited" using inv ws by simp
  have w1: "w1 \<noteq> []" "walkFree W H gs start w1" "length w1 \<le> 51"
    using bfsInv_walks [OF inv1, of w1] by simp_all
  have p: "p = walkEnd W H gs start w1" and fm: "firstMove = hd w1" and d: "dst = int (length w1)"
    using ent by (simp_all add: entryOf_def)
  show ?case
  proof (cases "p \<in> set (food gs)")
    case True
    then have fw: "foodWalk W H gs start w1" using w1 p by (simp add: foodWalk_def)
    have "\<forall>ds. foodWalk W H gs start ds \<longrightarrow> walkCode w1 \<le> walkCode ds"
      using bfs_front_least [OF inv1] by blast
    then have "\<exists>w. foodWalk W H gs start w \<and> firstMove = hd w \<and> dst = int (length w) \<and>
        length w \<le> 51 \<and> (\<forall>ds. foodWalk W H gs start ds \<longrightarrow> walkCode w \<le> walkCode ds)"
      using fw fm d w1(3) by blast
    then show ?thesis using True by (simp add: bfsPost_def)
  next
    case nofood: False
    then have nf: "walkEnd W H gs start w1 \<notin> set (food gs)" using p by simp
    show ?thesis
    proof (cases "50 < dst")
      case True
      then have "50 < length w1" using d by simp
      then have "bfsInv W H gs start (insert w1 P) ws' visited"
        using inv1 nf by (intro bfsInv_drop)
      from 2(1) [OF nofood True wf this queue]
      show ?thesis using nofood True by simp
    next
      case False
      then have short: "length w1 \<le> 50" using d by simp
      let ?fresh = "freshMoves W H gs p possibleMoves visited"
      let ?q = "queue @ map (\<lambda>m. (stepTo W H gs p m, firstMove, dst + 1)) ?fresh"
      let ?V = "visited \<union> stepTo W H gs p ` set ?fresh"
      have fn: "bfsNeighbors W H gs myId p firstMove dst possibleMoves (queue, visited) = Inr (?q, ?V)"
        using wf by (rule bfsNeighbors_pure)
      have inv': "bfsInv W H gs start (insert w1 P) (ws' @ map (\<lambda>m. w1 @ [m]) ?fresh) ?V"
        using bfsInv_expand [OF inv1 nf short] by (simp only: p)
      have q': "?q = map (entryOf W H gs start) (ws' @ map (\<lambda>m. w1 @ [m]) ?fresh)"
        using entryOf_snoc [OF w1(1) ent] queue by (simp add: comp_def)
      from 2(2) [OF nofood False fn refl wf inv' q']
      show ?thesis using nofood False fn by simp
    qed
  qed
qed

lemma findPath_post:
  assumes "snakesNonEmpty gs"
  shows "bfsPost W H gs start (findPathToClosestFood W H start gs myId)"
proof -
  let ?fl = "filter (\<lambda>m. \<not> blocked W H gs (stepTo W H gs start m)) possibleMoves"
  have init: "bfsInit W H start gs myId possibleMoves ([], {})
      = Inr (map (\<lambda>m. (stepTo W H gs start m, m, 1)) ?fl, stepTo W H gs start ` set ?fl)"
    using bfsInit_pure [OF assms, of W H start myId possibleMoves "[]" "{}"] by simp
  have q: "map (\<lambda>m. (stepTo W H gs start m, m, 1)) ?fl
      = map (entryOf W H gs start) (map (\<lambda>m. [m]) ?fl)"
    by (simp add: entryOf_def comp_def)
  have "bfsPost W H gs start
      (bfsLoop W H gs myId (map (\<lambda>m. (stepTo W H gs start m, m, 1)) ?fl) (stepTo W H gs start ` set ?fl))"
    using assms bfsInv_start q by (rule bfsLoop_post)
  then show ?thesis by (simp add: findPathToClosestFood_def init)
qed

lemma demo_path_up:
  "findPathToClosestFood 10 10 (5, 5) (demoState [(5, 0)]) ''bot'' = Inr (Some (Up, 5))"
  by code_simp

lemma demo_walk_up: "foodWalk 10 10 (demoState [(5, 0)]) (5, 5) [Up, Up, Up, Up, Up]"
  by (simp add: foodWalk_def stepTo_def getNextCoord_def blocked_def outOfBounds_def
      demoState_def demoBot_def)

text \<open>
  C3. On a grid of positive dimensions, when every living snake is non-empty and
  some food cell can be reached from the head by a free walk of at most 51 steps
  (the search tests cells up to that depth, which covers the 50 steps of the claim),
  \<open>findPathToClosestFood\<close> returns \<open>(firstMove, dist)\<close> of a food walk \<open>ds\<close>:
  \<open>dist\<close> is its length, which is the least length of any food walk (the
  breadth-first distance to the nearest food over the cells that are not blocked),
  and \<open>firstMove\<close> is its first step. Among the food walks of that least length,
  \<open>ds\<close> is the first in the lexicographic order of the directions up, down, left,
  right, which is the order in which a breadth-first traversal that expands the
  directions in this fixed order discovers them.
\<close>

theorem findPath_shortest:
  assumes "snakesNonEmpty gs" and "0 < W" and "0 < H"
    and "foodWalk W H gs start ds0" and "length ds0 \<le> 51"
  shows "\<exists>ds. findPathToClosestFood W H start gs myId = Inr (Some (hd ds, int (length ds))) \<and>
              foodWalk W H gs start ds \<and>
              (\<forall>ds'. foodWalk W H gs start ds' \<longrightarrow>
                     length ds \<le> length ds' \<and> (length ds' = length ds \<longrightarrow> lexLe ds ds'))"
proof -
  have post: "bfsPost W H gs start (findPathToClosestFood W H start gs myId)"
    using assms(1) by (rule findPath_post)
  have ex: "\<exists>ds. foodWalk W H gs start ds \<and> length ds \<le> 51"
    using assms(4,5) by blast
  from post ex obtain w where w: "findPathToClosestFood W H start gs myId = Inr (Some (hd w, int (length w)))"
    "foodWalk W H gs start w" "\<forall>ds. foodWalk W H gs start ds \<longrightarrow> walkCode w \<le> walkCode ds"
    by (auto simp: bfsPost_def split: sum.splits option.splits)
  have "length w \<le> length ds' \<and> (length ds' = length w \<longrightarrow> lexLe w ds')"
    if "foodWalk W H gs start ds'" for ds'
  proof -
    have le: "walkCode w \<le> walkCode ds'" using w(3) that by blast
    then have "length w \<le> length ds'" by (rule walkCode_le_length)
    moreover have "lexLe w ds'" if "length ds' = length w"
      using walkCode_lex [OF that [symmetric] le] .
    ultimately show ?thesis by blast
  qed
  with w(1,2) show ?thesis by blast
qed

theorem findPath_shortest_witness:
  "snakesNonEmpty (demoState [(5, 0)]) \<and>
   foodWalk 10 10 (demoState [(5, 0)]) (5, 5) [Up, Up, Up, Up, Up] \<and>
   length [Up, Up, Up, Up, Up] \<le> 51 \<and>
   findPathToClosestFood 10 10 (5, 5) (demoState [(5, 0)]) ''bot'' = Inr (Some (Up, 5)) \<and>
   (\<exists>ds. hd ds = Up \<and> length ds = 5 \<and> foodWalk 10 10 (demoState [(5, 0)]) (5, 5) ds \<and>
         lexLe ds [Up, Up, Up, Up, Up])"
proof -
  have h: "snakesNonEmpty (demoState [(5, 0)])"
    by (simp add: snakesNonEmpty_def demoState_def demoBot_def)
  have l: "length [Up, Up, Up, Up, Up] \<le> 51" by simp
  from findPath_shortest [OF h _ _ demo_walk_up l, of "''bot''"]
  obtain ds where ds: "findPathToClosestFood 10 10 (5, 5) (demoState [(5, 0)]) ''bot''
        = Inr (Some (hd ds, int (length ds)))"
    "foodWalk 10 10 (demoState [(5, 0)]) (5, 5) ds"
    "\<forall>ds'. foodWalk 10 10 (demoState [(5, 0)]) (5, 5) ds' \<longrightarrow>
        length ds \<le> length ds' \<and> (length ds' = length ds \<longrightarrow> lexLe ds ds')"
    by auto
  from ds(1) have a: "hd ds = Up" "length ds = 5" by (simp_all add: demo_path_up)
  from ds(3) demo_walk_up a(2) have "lexLe ds [Up, Up, Up, Up, Up]" by simp
  with a ds(2) h demo_walk_up l demo_path_up show ?thesis by blast
qed

section \<open>The depth cap of the search\<close>

lemma walk_right_bound:
  "wallMode gs \<Longrightarrow> fst (walkEnd W H gs p ds) \<le> fst p + int (length ds)"
proof (induction ds arbitrary: p)
  case Nil
  then show ?case by simp
next
  case (Cons m ds)
  have "fst (stepTo W H gs p m) \<le> fst p + 1"
    using Cons.prems by (cases p; cases m) (simp_all add: stepTo_def getNextCoord_def)
  then show ?case using Cons.IH [OF Cons.prems, of "stepTo W H gs p m"] by simp
qed

lemma capState_far:
  assumes "foodWalk 60 1 (capState n) (0, 0) ds"
  shows "n \<le> int (length ds)"
proof -
  have "walkEnd 60 1 (capState n) (0, 0) ds = (n, 0)"
    using assms by (simp add: foodWalk_def capState_def)
  then show ?thesis
    using walk_right_bound [of "capState n" 60 1 "(0, 0)" ds] by (simp add: capState_def)
qed

lemma capState_51:
  "findPathToClosestFood 60 1 (0, 0) (capState 51) ''bot'' = Inr (Some (Right, 51))"
  by code_simp

text \<open>
  C5, as stated, fails: in the corridor with the food 51 cells away no food walk has
  50 steps or fewer, and the search still returns a path, of length 51. The test
  \<open>dist > 50\<close> stops the expansion of an entry, after the entry itself was
  compared with the food.
\<close>

theorem findPath_cap_counterexample:
  "\<not> (\<exists>ds. foodWalk 60 1 (capState 51) (0, 0) ds \<and> length ds \<le> 50) \<and>
   findPathToClosestFood 60 1 (0, 0) (capState 51) ''bot'' = Inr (Some (Right, 51))"
proof -
  have "\<not> (\<exists>ds. foodWalk 60 1 (capState 51) (0, 0) ds \<and> length ds \<le> 50)"
    using capState_far [of 51] by fastforce
  then show ?thesis using capState_51 by simp
qed

text \<open>
  C5, amended. On a grid of positive dimensions, when every living snake is
  non-empty and every food walk from the
  head is strictly longer than 51 steps, \<open>findPathToClosestFood\<close> returns
  \<open>null\<close>, as it does when no food can be reached.
\<close>

theorem findPath_beyond_cap:
  assumes "snakesNonEmpty gs" and "0 < W" and "0 < H"
    and "\<forall>ds. foodWalk W H gs start ds \<longrightarrow> 51 < length ds"
  shows "findPathToClosestFood W H start gs myId = Inr None"
proof -
  have post: "bfsPost W H gs start (findPathToClosestFood W H start gs myId)"
    using assms(1) by (rule findPath_post)
  show ?thesis
  proof (cases "findPathToClosestFood W H start gs myId")
    case (Inl e)
    then show ?thesis using post by (simp add: bfsPost_def)
  next
    case (Inr r)
    show ?thesis
    proof (cases r)
      case None
      then show ?thesis using Inr by simp
    next
      case (Some a)
      obtain fm d where "a = (fm, d)" by (cases a)
      then obtain w where "foodWalk W H gs start w" "length w \<le> 51"
        using post Inr Some by (auto simp: bfsPost_def)
      then show ?thesis using assms(4) by fastforce
    qed
  qed
qed

theorem findPath_beyond_cap_witness:
  "snakesNonEmpty (capState 52) \<and>
   findPathToClosestFood 60 1 (0, 0) (capState 52) ''bot'' = Inr None"
proof -
  have h: "snakesNonEmpty (capState 52)"
    by (simp add: snakesNonEmpty_def capState_def)
  have far: "\<forall>ds. foodWalk 60 1 (capState 52) (0, 0) ds \<longrightarrow> 51 < length ds"
    using capState_far [of 52] by fastforce
  show ?thesis using h findPath_beyond_cap [OF h _ _ far] by simp
qed

section \<open>The top tier and dead ends\<close>

lemma countAccessibleTiles_min:
  assumes "snakesNonEmpty gs" and "0 < W" and "0 < H" and "0 < limit"
  shows "countAccessibleTiles W H start gs myId limit
           = Inr (min limit (int (card (reachable W H gs start))))"
  unfolding countAccessibleTiles_def
  using assms(1,2,3)
  by (rule fillLoop_count [where P = "{}"])
    (use assms(4) possibleMoves_all in \<open>auto simp add: reachable.start\<close>)

lemma filterSafe_complete:
  "filterSafe W H head gs myId ms = Inr sm \<Longrightarrow> m \<in> set ms \<Longrightarrow>
   isMoveImmediatelySafe W H head m gs myId = Inr True \<Longrightarrow> m \<in> set sm"
proof (induction ms arbitrary: sm)
  case Nil
  then show ?case by simp
next
  case (Cons a ms)
  then show ?case
    by (auto split: sum.splits if_splits)
qed

lemma survivalScan_max:
  assumes "snakesNonEmpty gs" and "0 < W" and "0 < H"
  shows "\<exists>best' mx'.
           survivalScan W H head gs myId ms (best, mx) = Inr (best', mx') \<and> mx \<le> mx' \<and>
           (\<forall>m \<in> set ms. cappedSpace W H gs head m \<le> mx') \<and>
           ((best' = best \<and> mx' = mx) \<or>
            (\<exists>b \<in> set ms. best' = Some b \<and> cappedSpace W H gs head b = mx'))"
proof (induction ms arbitrary: best mx)
  case Nil
  then show ?case by simp
next
  case (Cons a ms)
  have cnt: "countAccessibleTiles W H (getNextCoord W H head a (wallMode gs)) gs myId 100
      = Inr (cappedSpace W H gs head a)"
    using countAccessibleTiles_min [OF assms, of 100] by (simp add: cappedSpace_def)
  show ?case
  proof (cases "mx < cappedSpace W H gs head a")
    case True
    from Cons.IH [of "Some a" "cappedSpace W H gs head a"] obtain best' mx' where r:
      "survivalScan W H head gs myId ms (Some a, cappedSpace W H gs head a) = Inr (best', mx')"
      "cappedSpace W H gs head a \<le> mx'"
      "\<forall>m \<in> set ms. cappedSpace W H gs head m \<le> mx'"
      "(best' = Some a \<and> mx' = cappedSpace W H gs head a) \<or>
       (\<exists>b \<in> set ms. best' = Some b \<and> cappedSpace W H gs head b = mx')"
      by blast
    have s: "survivalScan W H head gs myId (a # ms) (best, mx) = Inr (best', mx')"
      using cnt True r(1) by simp
    have "\<exists>b \<in> set (a # ms). best' = Some b \<and> cappedSpace W H gs head b = mx'"
      using r(4) by auto
    moreover have "mx \<le> mx'" using True r(2) by simp
    moreover have "\<forall>m \<in> set (a # ms). cappedSpace W H gs head m \<le> mx'"
      using r(2,3) by simp
    ultimately show ?thesis using s by blast
  next
    case False
    from Cons.IH [of best mx] obtain best' mx' where r:
      "survivalScan W H head gs myId ms (best, mx) = Inr (best', mx')"
      "mx \<le> mx'"
      "\<forall>m \<in> set ms. cappedSpace W H gs head m \<le> mx'"
      "(best' = best \<and> mx' = mx) \<or>
       (\<exists>b \<in> set ms. best' = Some b \<and> cappedSpace W H gs head b = mx')"
      by blast
    have s: "survivalScan W H head gs myId (a # ms) (best, mx) = Inr (best', mx')"
      using cnt False r(1) by simp
    have "(best' = best \<and> mx' = mx) \<or>
       (\<exists>b \<in> set (a # ms). best' = Some b \<and> cappedSpace W H gs head b = mx')"
      using r(4) by auto
    moreover have "\<forall>m \<in> set (a # ms). cappedSpace W H gs head m \<le> mx'"
      using r(2,3) False by simp
    ultimately show ?thesis using s r(2) by blast
  qed
qed

lemma hard_tier_upto_100:
  assumes wf: "snakesNonEmpty gs" "0 < W" "0 < H"
    and hard: "effectiveDifficulty n pl = ''hard''"
    and len: "length (snake pl) \<le> 100"
    and rnd: "0 \<le> rnd k"
    and dec: "decideNPCMove W H rnd n gs pl k = (Inr (Some d), n', k')"
    and safe: "isMoveImmediatelySafe W H (hd (snake pl)) m gs (pid pl) = Inr True"
    and room: "countAccessibleTiles W H (getNextCoord W H (hd (snake pl)) m (wallMode gs)) gs (pid pl)
                 (int (length (snake pl))) = Inr c" "int (length (snake pl)) \<le> c"
  shows "countAccessibleTiles W H (getNextCoord W H (hd (snake pl)) d (wallMode gs)) gs (pid pl)
           (int (length (snake pl))) = Inr (int (length (snake pl)))"
proof -
  define L where "L = int (length (snake pl))"
  define head where "head = hd (snake pl)"
  define R where "R mv = int (card (reachable W H gs (getNextCoord W H head mv (wallMode gs))))" for mv
  have st: "getDifficultySettings (effectiveDifficulty n pl)
      = \<lparr>reactionDelayFrames = 0, errorChance = 0, usePathfinding = True, safetyCheck = True\<rparr>"
    using hard by (simp add: getDifficultySettings_def)
  have ne: "snake pl \<noteq> []" and alive: "isAlive pl" and gate: "\<not> 0 < decisionDelay n"
    using dec by (auto simp: decideNPCMove_def Let_def split: if_splits)
  then have Lpos: "0 < L" by (simp add: L_def)
  have est: "countAccessibleTiles W H (getNextCoord W H head mv (wallMode gs)) gs (pid pl) L
      = Inr (min L (R mv))" for mv
    using countAccessibleTiles_min [OF wf Lpos] by (simp add: R_def)
  have "min L (R m) = c" using room(1) est [of m] by (simp add: L_def head_def)
  then have Rm: "L \<le> R m" using room(2) by (simp add: L_def)
  obtain sm where sm: "filterSafe W H head gs (pid pl) possibleMoves = Inr sm" "sm \<noteq> []"
    using dec ne alive gate
    by (auto simp: decideNPCMove_def Let_def head_def split: if_splits sum.splits)
  have msm: "m \<in> set sm"
    using filterSafe_complete [OF sm(1) possibleMoves_all] safe by (simp add: head_def)
  have noerr: "\<not> rnd k < 0" using rnd by simp
  define ST where "ST = \<lparr>reactionDelayFrames = 0, errorChance = 0,
      usePathfinding = True, safetyCheck = True\<rparr>"
  have branches: "foodPathCheck W H head gs pl ST sm = Inr (Some d) \<or>
      (foodPathCheck W H head gs pl ST sm = Inr None \<and>
       survivalMode W H head gs pl sm = Inr (Some d))"
    using dec ne alive gate sm noerr
    by (auto simp: decideNPCMove_def Let_def head_def st ST_def
        split: sum.splits option.splits if_splits)
  have goal: "L \<le> R d"
    using branches
  proof
    assume "foodPathCheck W H head gs pl ST sm = Inr (Some d)"
    then have "\<exists>a. countAccessibleTiles W H (getNextCoord W H head d (wallMode gs)) gs (pid pl) L = Inr a
                  \<and> L \<le> a"
      by (auto simp: foodPathCheck_def Let_def L_def ST_def split: sum.splits option.splits if_splits)
    then show ?thesis using est [of d] by auto
  next
    assume "foodPathCheck W H head gs pl ST sm = Inr None \<and>
       survivalMode W H head gs pl sm = Inr (Some d)"
    then have sv: "survivalMode W H head gs pl sm = Inr (Some d)" by simp
    from survivalScan_max [OF wf, of head "pid pl" sm None "- 1"]
    obtain best mx where scan: "survivalScan W H head gs (pid pl) sm (None, - 1) = Inr (best, mx)"
      "\<forall>mv \<in> set sm. cappedSpace W H gs head mv \<le> mx"
      "(best = None \<and> mx = - 1) \<or> (\<exists>b \<in> set sm. best = Some b \<and> cappedSpace W H gs head b = mx)"
      by blast
    have capm: "cappedSpace W H gs head m = min 100 (R m)" by (simp add: cappedSpace_def R_def)
    have "L \<le> cappedSpace W H gs head m" using Rm len capm by (simp add: L_def)
    then have big: "L \<le> mx" using scan(2) msm by fastforce
    then have "best = Some d" using sv scan(1) by (simp add: survivalMode_def L_def)
    then have "cappedSpace W H gs head d = mx" using scan(3) by auto
    then show ?thesis using big by (simp add: cappedSpace_def R_def)
  qed
  then show ?thesis using est [of d] by (simp add: L_def head_def)
qed


lemma coil_length: "length (snake coilBot) = 101"
  by code_simp

lemma coil_safe:
  "filterSafe 20 12 (hd (snake coilBot)) coilState (pid coilBot) possibleMoves = Inr [Up, Down]"
  by code_simp

lemma coil_space_down:
  "countAccessibleTiles 20 12 (getNextCoord 20 12 (hd (snake coilBot)) Down (wallMode coilState))
     coilState (pid coilBot) (int (length (snake coilBot))) = Inr 101"
  by code_simp

lemma coil_space_up:
  "countAccessibleTiles 20 12 (getNextCoord 20 12 (hd (snake coilBot)) Up (wallMode coilState))
     coilState (pid coilBot) (int (length (snake coilBot))) = Inr 2"
  by code_simp

lemma coil_decide:
  "decideNPCMove 20 12 (\<lambda>i. 0) (createNPC ''bot'' ''Bot'' ''hard'') coilState coilBot 0
     = (Inr (Some Up), createNPC ''bot'' ''Bot'' ''hard'', 1)"
  by code_simp

lemma coil_tier:
  "effectiveDifficulty (createNPC ''bot'' ''Bot'' ''hard'') coilBot = ''hard'' \<and>
   errorChance (getDifficultySettings ''hard'') = 0"
  by (simp add: effectiveDifficulty_def createNPC_def getDifficultySettings_def)

text \<open>
  C1 fails on the code. On the coiled state the bot is of the top tier with error
  chance zero and is not in the delay gate; its safe moves are up and down; the
  estimator, asked with the snake's length 101 as its limit, gives 101 for the cell
  below the head (enough room) and 2 for the cell above it (a dead end); and
  \<open>decideNPCMove\<close> returns up. The path to the food is refused by the safety check,
  but survival mode measures the space with the cap 100, which can never reach the
  length 101, and so falls to the tail chase, which does not look at the space.
  For a snake of at most 100 segments the claim holds: \<open>hard_tier_upto_100\<close>.
\<close>

theorem hard_tier_dead_end_at_101:
  "length (snake coilBot) = 101 \<and>
   (effectiveDifficulty (createNPC ''bot'' ''Bot'' ''hard'') coilBot = ''hard'' \<and>
    errorChance (getDifficultySettings ''hard'') = 0) \<and>
   filterSafe 20 12 (hd (snake coilBot)) coilState (pid coilBot) possibleMoves = Inr [Up, Down] \<and>
   countAccessibleTiles 20 12 (getNextCoord 20 12 (hd (snake coilBot)) Down (wallMode coilState))
     coilState (pid coilBot) (int (length (snake coilBot))) = Inr 101 \<and>
   countAccessibleTiles 20 12 (getNextCoord 20 12 (hd (snake coilBot)) Up (wallMode coilState))
     coilState (pid coilBot) (int (length (snake coilBot))) = Inr 2 \<and>
   decideNPCMove 20 12 (\<lambda>i. 0) (createNPC ''bot'' ''Bot'' ''hard'') coilState coilBot 0
     = (Inr (Some Up), createNPC ''bot'' ''Bot'' ''hard'', 1)"
  by (intro conjI coil_length coil_tier coil_safe coil_space_down coil_space_up coil_decide)

theorem hard_tier_dead_end_at_101_witness:
  "decideNPCMove 20 12 (\<lambda>i. 0) (createNPC ''bot'' ''Bot'' ''hard'') coilState coilBot 0
     = (Inr (Some Up), createNPC ''bot'' ''Bot'' ''hard'', 1) \<and>
   countAccessibleTiles 20 12 (getNextCoord 20 12 (hd (snake coilBot)) Up (wallMode coilState))
     coilState (pid coilBot) (int (length (snake coilBot))) = Inr 2"
  using hard_tier_dead_end_at_101 by blast

end
